theory Spec2Isabelle
  imports Complex_Main
begin

section \<open>Data model (models.py)\<close>

text \<open>
  Python \<open>float\<close> values are modelled twice. In the exact model every arithmetic operation
  of the source is the exact operation on \<^typ>\<open>real\<close>; rounding, infinities and NaN are
  outside it. It carries the properties that rounding does not decide: which exception
  is raised, which levels are read, the worked example, the clamping of the parameters.
  In the double-precision model (\<open>fl\<close> below) every arithmetic result of
  \<open>calculate_effective_price\<close> is rounded to the nearest double; it carries the
  properties that compare prices, where one rounding decides. Division is the one
  operation of the source that can raise, so it is modelled as a fallible operation
  (\<open>py_truediv\<close> and \<open>fl_truediv\<close> below).
\<close>

text \<open>\<open>OrderbookLevel\<close>: the field \<open>size\<close> of the source is called \<open>size_lvl\<close> here,
  since \<open>size\<close> is a constant of HOL.\<close>

record OrderbookLevel =
  price :: real
  size_lvl :: real

record Orderbook =
  bids :: "OrderbookLevel list"
  asks :: "OrderbookLevel list"

section \<open>Quantitative engine (quant\_engine.py)\<close>

datatype Side = BUY | SELL

text \<open>The exceptions the functions can raise: \<open>ValueError\<close> (raised explicitly),
  \<open>OrderbookDepthError\<close> (the source's own exception class) and Python's
  \<open>ZeroDivisionError\<close> for a float division by zero.\<close>

datatype error = ValueError | OrderbookDepthError | ZeroDivisionError

definition py_truediv :: "real \<Rightarrow> real \<Rightarrow> error + real" where
  "py_truediv a b = (if b = 0 then Inl ZeroDivisionError else Inr (a / b))"

subsection \<open>calculate\_effective\_price\<close>

text \<open>The three local variables the loop updates.\<close>

record walk_state =
  remaining_notional :: real
  total_cost :: real
  total_shares :: real

definition level_notional :: "OrderbookLevel \<Rightarrow> real" where
  "level_notional level = price level * size_lvl level"

text \<open>The \<open>for level in levels\<close> loop. \<open>continue\<close> is the recursive call on the
  unchanged state, \<open>break\<close> returns the state at once.\<close>

fun walk_levels :: "OrderbookLevel list \<Rightarrow> walk_state \<Rightarrow> error + walk_state" where
  "walk_levels [] st = Inr st"
| "walk_levels (level # rest) st =
     (if level_notional level \<le> 0 then walk_levels rest st
      else if remaining_notional st \<le> level_notional level then
        (case py_truediv (remaining_notional st) (price level) of
           Inl e \<Rightarrow> Inl e
         | Inr fill_shares \<Rightarrow>
             Inr \<lparr>remaining_notional = 0,
                  total_cost = total_cost st + remaining_notional st,
                  total_shares = total_shares st + fill_shares\<rparr>)
      else walk_levels rest
             \<lparr>remaining_notional = remaining_notional st - level_notional level,
              total_cost = total_cost st + level_notional level,
              total_shares = total_shares st + size_lvl level\<rparr>)"

definition side_levels :: "Orderbook \<Rightarrow> Side \<Rightarrow> OrderbookLevel list" where
  "side_levels orderbook side = (if side = BUY then asks orderbook else bids orderbook)"

definition initial_state :: "real \<Rightarrow> walk_state" where
  "initial_state trade_size_usd =
     \<lparr>remaining_notional = trade_size_usd, total_cost = 0, total_shares = 0\<rparr>"

definition calculate_effective_price :: "Orderbook \<Rightarrow> Side \<Rightarrow> real \<Rightarrow> error + real" where
  "calculate_effective_price orderbook side trade_size_usd =
     (if trade_size_usd \<le> 0 then Inl ValueError
      else
        (case walk_levels (side_levels orderbook side) (initial_state trade_size_usd) of
           Inl e \<Rightarrow> Inl e
         | Inr st \<Rightarrow>
             if remaining_notional st > 0 then Inl OrderbookDepthError
             else if total_shares st \<le> 0 then Inl OrderbookDepthError
             else py_truediv (total_cost st) (total_shares st)))"

subsection \<open>calculate\_effective\_price in double precision\<close>

text \<open>
  The same function with every arithmetic result rounded as Python rounds it: a
  \<open>float\<close> is an IEEE 754 binary64 number, and each of \<open>*\<close>, \<open>/\<close>, \<open>+\<close>, \<open>-\<close> returns the
  double nearest to the exact result, ties going to the even significand. A double is
  still a real number here, and \<open>fl\<close> maps a real to the nearest number with a 53-bit
  significand. The exponent is not bounded: overflow to infinity and the subnormal range
  below \<open>2 powi (-1022)\<close> are outside this model, as is NaN.
\<close>

definition round_even :: "real \<Rightarrow> int" where
  "round_even y =
     (let f = \<lfloor>y\<rfloor>; d = y - of_int f
      in if d < 1 / 2 then f else if 1 / 2 < d then f + 1 else if even f then f else f + 1)"

definition fl :: "real \<Rightarrow> real" where
  "fl x =
     (if x = 0 then 0
      else let q = 2 powi (\<lfloor>log 2 \<bar>x\<bar>\<rfloor> - 52)
           in sgn x * of_int (round_even (\<bar>x\<bar> / q)) * q)"

text \<open>The unit roundoff of binary64.\<close>

definition unit_roundoff :: real where
  "unit_roundoff = 1 / 2 ^ 53"

definition fl_truediv :: "real \<Rightarrow> real \<Rightarrow> error + real" where
  "fl_truediv a b = (if b = 0 then Inl ZeroDivisionError else Inr (fl (a / b)))"

definition level_notional_fl :: "OrderbookLevel \<Rightarrow> real" where
  "level_notional_fl level = fl (price level * size_lvl level)"

fun walk_levels_fl :: "OrderbookLevel list \<Rightarrow> walk_state \<Rightarrow> error + walk_state" where
  "walk_levels_fl [] st = Inr st"
| "walk_levels_fl (level # rest) st =
     (if level_notional_fl level \<le> 0 then walk_levels_fl rest st
      else if remaining_notional st \<le> level_notional_fl level then
        (case fl_truediv (remaining_notional st) (price level) of
           Inl e \<Rightarrow> Inl e
         | Inr fill_shares \<Rightarrow>
             Inr \<lparr>remaining_notional = 0,
                  total_cost = fl (total_cost st + remaining_notional st),
                  total_shares = fl (total_shares st + fill_shares)\<rparr>)
      else walk_levels_fl rest
             \<lparr>remaining_notional = fl (remaining_notional st - level_notional_fl level),
              total_cost = fl (total_cost st + level_notional_fl level),
              total_shares = fl (total_shares st + size_lvl level)\<rparr>)"

definition calculate_effective_price_fl :: "Orderbook \<Rightarrow> Side \<Rightarrow> real \<Rightarrow> error + real" where
  "calculate_effective_price_fl orderbook side trade_size_usd =
     (if trade_size_usd \<le> 0 then Inl ValueError
      else
        (case walk_levels_fl (side_levels orderbook side) (initial_state trade_size_usd) of
           Inl e \<Rightarrow> Inl e
         | Inr st \<Rightarrow>
             if remaining_notional st > 0 then Inl OrderbookDepthError
             else if total_shares st \<le> 0 then Inl OrderbookDepthError
             else fl_truediv (total_cost st) (total_shares st)))"

subsection \<open>BetaModel.parameters and compute\_trade\_metrics\<close>

text \<open>\<open>TradeScenario\<close> of models.py; it is declared here, after the functions whose
  parameter \<open>trade_size_usd\<close> shares the name of its field.\<close>

record TradeScenario =
  trade_size_usd :: real
  belief_probability :: real
  effective_entry_price :: real
  ev_percentage :: real
  kelly_fraction :: real

text \<open>\<open>numpy.clip\<close> is a library function outside the sources; numpy documents it as
  \<open>minimum(a_max, maximum(a, a_min))\<close>.\<close>

definition np_clip :: "real \<Rightarrow> real \<Rightarrow> real \<Rightarrow> real" where
  "np_clip a a_min a_max = min a_max (max a a_min)"

text \<open>The clamp of the specification, in its own words: a value below the range becomes
  the lower bound, a value above it the upper bound.\<close>

definition clamp :: "real \<Rightarrow> real \<Rightarrow> real \<Rightarrow> real" where
  "clamp x lo hi = (if x < lo then lo else if hi < x then hi else x)"

record BetaModel =
  belief_probability :: real
  confidence_strength :: real

definition parameters :: "BetaModel \<Rightarrow> real \<times> real" where
  "parameters self =
     (let belief = np_clip (BetaModel.belief_probability self) 0 1;
          strength = np_clip (confidence_strength self) 1 100;
          alpha = belief * strength + 1;
          beta = (1 - belief) * strength + 1
      in (alpha, beta))"

text \<open>Modelled from the spec: \<open>numpy.linspace\<close> is a library function outside the sources.
  The spec describes its result as \<open>pointCount\<close> evenly spaced values over the closed
  interval; numpy documents the samples as \<open>start + i * step\<close> with
  \<open>step = (stop - start) / (num - 1)\<close>, and raises \<open>ValueError\<close> for a negative \<open>num\<close>.\<close>

definition np_linspace :: "real \<Rightarrow> real \<Rightarrow> int \<Rightarrow> error + real list" where
  "np_linspace start stop num =
     (if num < 0 then Inl ValueError
      else Inr (map (\<lambda>i. start + real i * ((stop - start) / real_of_int (num - 1)))
                  [0..<nat num]))"

text \<open>Modelled from the spec: \<open>scipy.stats.beta.pdf\<close> is a library function outside the
  sources. The spec gives the density as \<open>x^(alpha-1) (1-x)^(beta-1) / B(alpha, beta)\<close> on
  [0, 1]; outside the support the density is 0. A power with exponent 0 is 1, also at
  base 0, as in the standard density. The normalising constant \<open>B\<close> (the Beta function)
  is a parameter.\<close>

definition beta_power :: "real \<Rightarrow> real \<Rightarrow> real" where
  "beta_power x e = (if e = 0 then 1 else x powr e)"

definition beta_dist_pdf :: "(real \<Rightarrow> real \<Rightarrow> real) \<Rightarrow> real \<Rightarrow> real \<Rightarrow> real \<Rightarrow> real" where
  "beta_dist_pdf B x a b =
     (if 0 \<le> x \<and> x \<le> 1 then beta_power x (a - 1) * beta_power (1 - x) (b - 1) / B a b
      else 0)"

text \<open>\<open>BetaModel.pdf\<close>: the density is applied to every element of the array \<open>x\<close>.\<close>

definition pdf ::
  "(real \<Rightarrow> real \<Rightarrow> real) \<Rightarrow> BetaModel \<Rightarrow> int \<Rightarrow> error + (real list \<times> real list)" where
  "pdf B self points =
     (case parameters self of
        (alpha, beta) \<Rightarrow>
          (case np_linspace 0 1 points of
             Inl e \<Rightarrow> Inl e
           | Inr x \<Rightarrow> Inr (x, map (\<lambda>v. beta_dist_pdf B v alpha beta) x)))"

definition compute_trade_metrics :: "real \<Rightarrow> real \<Rightarrow> real \<Rightarrow> error + TradeScenario" where
  "compute_trade_metrics entry_price target_probability trade_size =
     (let price = np_clip entry_price 0 1;
          probability = np_clip target_probability 0 1;
          ev = probability * 1 - price;
          denominator = max (1 - price) (1 / 1000000)
      in case py_truediv ev denominator of
           Inl e \<Rightarrow> Inl e
         | Inr q \<Rightarrow>
             Inr \<lparr>trade_size_usd = trade_size,
                  belief_probability = probability,
                  effective_entry_price = price,
                  ev_percentage = ev * 100,
                  kelly_fraction = max 0 q\<rparr>)"

subsection \<open>Specification-level notions\<close>

text \<open>The levels the double-precision loop consumes, wholly or in part, for a starting
  notional \<open>r\<close>: the branches are those of \<open>walk_levels_fl\<close>. A skipped level is not used;
  the level on which the loop breaks is the last one used.\<close>

fun levels_used_fl :: "OrderbookLevel list \<Rightarrow> real \<Rightarrow> OrderbookLevel list" where
  "levels_used_fl [] r = []"
| "levels_used_fl (level # rest) r =
     (if level_notional_fl level \<le> 0 then levels_used_fl rest r
      else if r \<le> level_notional_fl level then [level]
      else level # levels_used_fl rest (fl (r - level_notional_fl level)))"

text \<open>The total ask liquidity notional \<open>L\<close>: the sum of price times size over the asks.\<close>

definition ask_liquidity :: "Orderbook \<Rightarrow> real" where
  "ask_liquidity orderbook = sum_list (map level_notional (asks orderbook))"

text \<open>The order book with the levels of one side replaced.\<close>

definition with_levels :: "Orderbook \<Rightarrow> Side \<Rightarrow> OrderbookLevel list \<Rightarrow> Orderbook" where
  "with_levels orderbook side levels =
     (if side = BUY then orderbook\<lparr>asks := levels\<rparr> else orderbook\<lparr>bids := levels\<rparr>)"

text \<open>A small order book for concrete evaluations: the asks are those of the
  specification's two-level example.\<close>

definition example_book :: Orderbook where
  "example_book =
     \<lparr>bids = [\<lparr>price = 0.38, size_lvl = 50\<rparr>, \<lparr>price = 0.30, size_lvl = 100\<rparr>],
      asks = [\<lparr>price = 0.40, size_lvl = 50\<rparr>, \<lparr>price = 0.50, size_lvl = 100\<rparr>]\<rparr>"

text \<open>The factor by which \<open>k\<close> roundings can move a quotient of rounded sums: with
  \<open>u\<close> the unit roundoff, \<open>((1 + u) / (1 - u)) ^ k\<close>. It is 1 when nothing is rounded.\<close>

definition rounding_tolerance :: "nat \<Rightarrow> real" where
  "rounding_tolerance k = ((1 + unit_roundoff) / (1 - unit_roundoff)) ^ k"

text \<open>The double nearest to 0.03, which is what Python reads the literal \<open>0.03\<close> as.\<close>

definition double_0_03 :: real where
  "double_0_03 = 1080863910568919 / 2 ^ 55"

section \<open>Properties\<close>

subsection \<open>Auxiliary facts about the loop\<close>

lemma notional_zero_price: "price level = 0 \<Longrightarrow> level_notional level = 0"
  by (simp add: level_notional_def)

lemma walk_levels_total: "\<exists>st'. walk_levels levels st = Inr st'"
  by (induction levels arbitrary: st) (auto simp: py_truediv_def notional_zero_price)

lemma walk_levels_no_error: "walk_levels levels st \<noteq> Inl e"
  using walk_levels_total [of levels st] by auto

lemma walk_levels_prefix:
  "0 < remaining_notional st \<Longrightarrow> walk_levels levels st = Inr st'
   \<Longrightarrow> remaining_notional st' \<le> 0
   \<Longrightarrow> \<exists>k<length levels.
         (\<forall>zs. walk_levels (take (Suc k) levels @ zs) st = Inr st')
       \<and> (\<exists>st''. walk_levels (take k levels) st = Inr st'' \<and> 0 < remaining_notional st'')"
proof (induction levels arbitrary: st)
  case Nil
  then show ?case by simp
next
  case (Cons level rest)
  show ?case
  proof (cases "level_notional level \<le> 0")
    case True
    with Cons.prems have "walk_levels rest st = Inr st'" by simp
    from Cons.IH [OF Cons.prems(1) this Cons.prems(3)]
    obtain k where k: "k < length rest"
      "\<forall>zs. walk_levels (take (Suc k) rest @ zs) st = Inr st'"
      "\<exists>st''. walk_levels (take k rest) st = Inr st'' \<and> 0 < remaining_notional st''"
      by blast
    have "Suc k < length (level # rest)" using k(1) by simp
    moreover have "\<forall>zs. walk_levels (take (Suc (Suc k)) (level # rest) @ zs) st = Inr st'"
      using k(2) True by simp
    moreover have "\<exists>st''. walk_levels (take (Suc k) (level # rest)) st = Inr st''
        \<and> 0 < remaining_notional st''"
      using k(3) True by simp
    ultimately show ?thesis by blast
  next
    case pos: False
    show ?thesis
    proof (cases "remaining_notional st \<le> level_notional level")
      case True
      have "\<forall>zs. walk_levels (take (Suc 0) (level # rest) @ zs) st = Inr st'"
        using Cons.prems(2) pos True by simp
      moreover have "\<exists>st''. walk_levels (take 0 (level # rest)) st = Inr st''
          \<and> 0 < remaining_notional st''"
        using Cons.prems(1) by simp
      ultimately show ?thesis by (intro exI [of _ 0]) simp
    next
      case False
      let ?st = "\<lparr>remaining_notional = remaining_notional st - level_notional level,
              total_cost = total_cost st + level_notional level,
              total_shares = total_shares st + size_lvl level\<rparr>"
      have r: "0 < remaining_notional ?st" using False by simp
      have w: "walk_levels rest ?st = Inr st'" using Cons.prems(2) pos False by simp
      from Cons.IH [OF r w Cons.prems(3)]
      obtain k where k: "k < length rest"
        "\<forall>zs. walk_levels (take (Suc k) rest @ zs) ?st = Inr st'"
        "\<exists>st''. walk_levels (take k rest) ?st = Inr st'' \<and> 0 < remaining_notional st''"
        by blast
      have "Suc k < length (level # rest)" using k(1) by simp
      moreover have "\<forall>zs. walk_levels (take (Suc (Suc k)) (level # rest) @ zs) st = Inr st'"
        using k(2) pos False by simp
      moreover have "\<exists>st''. walk_levels (take (Suc k) (level # rest)) st = Inr st''
          \<and> 0 < remaining_notional st''"
        using k(3) pos False by simp
      ultimately show ?thesis by blast
    qed
  qed
qed

lemma side_levels_with_levels [simp]: "side_levels (with_levels b s ls) s = ls"
  by (cases s) (simp_all add: side_levels_def with_levels_def)

lemma calc_ok_remaining:
  assumes "calculate_effective_price orderbook side n = Inr p"
  shows "0 < n \<and> (\<exists>st. walk_levels (side_levels orderbook side) (initial_state n) = Inr st
            \<and> remaining_notional st \<le> 0 \<and> 0 < total_shares st
            \<and> p = total_cost st / total_shares st)"
proof -
  obtain st where st: "walk_levels (side_levels orderbook side) (initial_state n) = Inr st"
    using walk_levels_total by blast
  show ?thesis using assms
    by (auto simp: calculate_effective_price_def st py_truediv_def split: if_splits)
qed

lemma calc_from_walk:
  assumes "0 < n" "walk_levels (side_levels orderbook side) (initial_state n) = Inr st"
    "remaining_notional st \<le> 0" "0 < total_shares st"
  shows "calculate_effective_price orderbook side n = Inr (total_cost st / total_shares st)"
  using assms by (simp add: calculate_effective_price_def py_truediv_def)

lemma notional_nonneg: "0 < price l \<Longrightarrow> 0 \<le> size_lvl l \<Longrightarrow> 0 \<le> level_notional l"
  by (simp add: level_notional_def)

lemma sum_notional_nonneg:
  "\<forall>l\<in>set levels. 0 < price l \<and> 0 \<le> size_lvl l \<Longrightarrow> 0 \<le> sum_list (map level_notional levels)"
  by (induction levels) (auto simp: notional_nonneg)

subsection \<open>Auxiliary facts about rounding\<close>

lemma round_even_bounds: "\<lfloor>y\<rfloor> \<le> round_even y \<and> round_even y \<le> \<lfloor>y\<rfloor> + 1"
  by (simp add: round_even_def Let_def)

lemma round_even_err: "\<bar>of_int (round_even y) - y\<bar> \<le> 1 / 2"
proof -
  have "of_int \<lfloor>y\<rfloor> \<le> y" "y < of_int \<lfloor>y\<rfloor> + 1" by linarith+
  then show ?thesis by (auto simp: round_even_def Let_def)
qed

lemma round_even_of_int [simp]: "round_even (of_int k) = k"
  by (simp add: round_even_def)

lemma round_even_mono: 
  assumes "y \<le> y'" shows "round_even y \<le> round_even y'"
proof (cases "\<lfloor>y\<rfloor> = \<lfloor>y'\<rfloor>")
  case True
  then show ?thesis using assms by (auto simp: round_even_def Let_def)
next
  case False
  then have "\<lfloor>y\<rfloor> < \<lfloor>y'\<rfloor>" using assms floor_mono [of y y'] by linarith
  then show ?thesis using round_even_bounds [of y] round_even_bounds [of y'] by linarith
qed

lemma floor_log2_eq:
  assumes "0 < x" "2 powi e \<le> x" "x < 2 powi (e + 1)"
  shows "\<lfloor>log 2 x\<rfloor> = e"
proof -
  have "(2::real) powr real_of_int e \<le> x" using assms(2) by (simp add: powr_real_of_int')
  moreover have "x < (2::real) powr (real_of_int e + 1)"
    using assms(3) powr_real_of_int' [of "2::real" "e + 1"] by simp
  ultimately show ?thesis using assms(1) by (simp add: floor_log_eq_powr_iff)
qed

lemma binade:
  assumes "0 < x"
  shows "2 powi \<lfloor>log 2 x\<rfloor> \<le> x \<and> x < 2 powi (\<lfloor>log 2 x\<rfloor> + 1)"
proof -
  define e where "e = \<lfloor>log 2 x\<rfloor>"
  have "(2::real) powr real_of_int e \<le> x \<and> x < 2 powr (real_of_int e + 1)"
    using assms floor_log_eq_powr_iff [of x 2 e] by (simp add: e_def)
  then show ?thesis
    using powr_real_of_int' [of "2::real" "e + 1"] powr_real_of_int' [of "2::real" e]
    by (simp add: e_def)
qed

lemma fl_zero [simp]: "fl 0 = 0"
  by (simp add: fl_def)

lemma fl_minus: "fl (- x) = - fl x"
  by (simp add: fl_def Let_def sgn_minus)

lemma fl_pos_eval:
  assumes "0 < x" "2 powi e \<le> x" "x < 2 powi (e + 1)"
  shows "fl x = of_int (round_even (x / 2 powi (e - 52))) * 2 powi (e - 52)"
  using assms floor_log2_eq [OF assms] by (simp add: fl_def Let_def)

lemma fl_pos_range:
  assumes "0 < x"
  shows "2 powi \<lfloor>log 2 x\<rfloor> \<le> fl x \<and> fl x \<le> 2 powi (\<lfloor>log 2 x\<rfloor> + 1)"
proof -
  define e where "e = \<lfloor>log 2 x\<rfloor>"
  define q :: real where "q = 2 powi (e - 52)"
  have q: "0 < q" by (simp add: q_def)
  have b: "2 powi e \<le> x" "x < 2 powi (e + 1)" using binade [OF assms] by (simp_all add: e_def)
  have e1: "(2::real) powi e = 2 ^ 52 * q"
    by (simp add: q_def power_int_diff)
  have e2: "(2::real) powi (e + 1) = 2 ^ 53 * q"
    by (simp add: q_def power_int_diff power_int_add)
  have f: "fl x = of_int (round_even (x / q)) * q"
    using fl_pos_eval [OF assms b] by (simp add: q_def)
  have "2 ^ 52 \<le> x / q" using b(1) q by (simp add: e1 pos_le_divide_eq)
  then have "round_even (of_int (2 ^ 52)) \<le> round_even (x / q)"
    by (intro round_even_mono) simp
  then have lo: "(2::real) ^ 52 \<le> of_int (round_even (x / q))"
    by (metis of_int_le_iff of_int_numeral of_int_power round_even_of_int)
  have "x / q \<le> 2 ^ 53" using b(2) q by (simp add: e2 pos_divide_le_eq)
  then have "round_even (x / q) \<le> round_even (of_int (2 ^ 53))"
    by (intro round_even_mono) simp
  then have hi: "of_int (round_even (x / q)) \<le> (2::real) ^ 53"
    by (metis of_int_le_iff of_int_numeral of_int_power round_even_of_int)
  show ?thesis unfolding e_def [symmetric] e1 e2 f using lo hi q by simp
qed

lemma fl_pos_error:
  assumes "0 < x"
  shows "\<bar>fl x - x\<bar> \<le> unit_roundoff * x"
proof -
  define e where "e = \<lfloor>log 2 x\<rfloor>"
  define q :: real where "q = 2 powi (e - 52)"
  have q: "0 < q" by (simp add: q_def)
  have b: "2 powi e \<le> x" "x < 2 powi (e + 1)" using binade [OF assms] by (simp_all add: e_def)
  have e1: "(2::real) powi e = 2 ^ 52 * q"
    by (simp add: q_def power_int_diff)
  have f: "fl x = of_int (round_even (x / q)) * q"
    using fl_pos_eval [OF assms b] by (simp add: q_def)
  have "fl x - x = (of_int (round_even (x / q)) - x / q) * q"
    using q by (simp add: f left_diff_distrib)
  then have "\<bar>fl x - x\<bar> = \<bar>of_int (round_even (x / q)) - x / q\<bar> * q"
    using q by (simp add: abs_mult)
  also have "\<dots> \<le> (1 / 2) * q"
    using round_even_err [of "x / q"] q by (intro mult_right_mono) simp_all
  also have "\<dots> = unit_roundoff * (2 ^ 52 * q)" by (simp add: unit_roundoff_def)
  also have "\<dots> \<le> unit_roundoff * x"
    using b(1) by (intro mult_left_mono) (simp_all add: e1 unit_roundoff_def)
  finally show ?thesis .
qed

lemma fl_error: "\<bar>fl x - x\<bar> \<le> unit_roundoff * \<bar>x\<bar>"
proof -
  consider "x = 0" | "0 < x" | "x < 0" by linarith
  then show ?thesis
  proof cases
    case 1
    then show ?thesis by simp
  next
    case 2
    then show ?thesis using fl_pos_error [of x] by simp
  next
    case 3
    then have "\<bar>fl (- x) - (- x)\<bar> \<le> unit_roundoff * (- x)" using fl_pos_error [of "- x"] by simp
    then show ?thesis using 3 by (simp add: fl_minus)
  qed
qed

lemma fl_pos_mono:
  assumes "0 < x" "x \<le> y"
  shows "fl x \<le> fl y"
proof -
  have y: "0 < y" using assms by simp
  define e where "e = \<lfloor>log 2 x\<rfloor>"
  define e' where "e' = \<lfloor>log 2 y\<rfloor>"
  have "log 2 x \<le> log 2 y" using assms by simp
  then have ee: "e \<le> e'" unfolding e_def e'_def by (rule floor_mono)
  show ?thesis
  proof (cases "e = e'")
    case True
    define q :: real where "q = 2 powi (e - 52)"
    have q: "0 < q" by (simp add: q_def)
    have fx: "fl x = of_int (round_even (x / q)) * q"
      using assms(1) by (simp add: fl_def Let_def q_def e_def)
    have fy: "fl y = of_int (round_even (y / q)) * q"
      using y True by (simp add: fl_def Let_def q_def e'_def)
    have "x / q \<le> y / q" using assms(2) q by (simp add: divide_right_mono)
    then have "round_even (x / q) \<le> round_even (y / q)" by (rule round_even_mono)
    then show ?thesis unfolding fx fy using q by simp
  next
    case False
    then have "e + 1 \<le> e'" using ee by simp
    then have "(2::real) powi (e + 1) \<le> 2 powi e'" by (intro power_int_increasing) simp_all
    moreover have "fl x \<le> 2 powi (e + 1)" using fl_pos_range [OF assms(1)] by (simp add: e_def)
    moreover have "2 powi e' \<le> fl y" using fl_pos_range [OF y] by (simp add: e'_def)
    ultimately show ?thesis by linarith
  qed
qed

lemma fl_pos: "0 < x \<Longrightarrow> 0 < fl x"
  using fl_pos_range [of x] zero_less_power_int [of "2::real" "\<lfloor>log 2 x\<rfloor>"] by linarith

lemma fl_mono:
  assumes "x \<le> y" shows "fl x \<le> fl y"
proof -
  consider "0 < x" | "x \<le> 0" "0 \<le> y" | "y < 0" using assms by linarith
  then show ?thesis
  proof cases
    case 1
    then show ?thesis using assms by (rule fl_pos_mono)
  next
    case 2
    have "fl x \<le> 0"
    proof (cases "x = 0")
      case False
      then have "0 < fl (- x)" using 2(1) by (intro fl_pos) simp
      then show ?thesis by (simp add: fl_minus)
    qed simp
    moreover have "0 \<le> fl y"
    proof (cases "y = 0")
      case False
      then have "0 < fl y" using 2(2) by (intro fl_pos) simp
      then show ?thesis by simp
    qed simp
    ultimately show ?thesis by simp
  next
    case 3
    then have "fl (- y) \<le> fl (- x)" using assms by (intro fl_pos_mono) simp_all
    then show ?thesis by (simp add: fl_minus)
  qed
qed

lemma fl_nonneg_bounds:
  assumes "0 \<le> x"
  shows "x * (1 - unit_roundoff) \<le> fl x \<and> fl x \<le> x * (1 + unit_roundoff)"
  using fl_error [of x] assms by (simp add: abs_le_iff algebra_simps)

lemma fl_nonpos: "x \<le> 0 \<Longrightarrow> fl x \<le> 0"
  using fl_mono [of x 0] by simp

subsection \<open>Auxiliary facts about the double-precision loop\<close>

lemma unit_roundoff_bounds: "0 < unit_roundoff" "unit_roundoff < 1"
  by (simp_all add: unit_roundoff_def)

lemma fl_lower: "0 \<le> x \<Longrightarrow> x * (1 - unit_roundoff) \<le> fl x"
  using fl_nonneg_bounds by blast

lemma fl_upper: "0 \<le> x \<Longrightarrow> fl x \<le> x * (1 + unit_roundoff)"
  using fl_nonneg_bounds by blast

lemma fl_nonneg: "0 \<le> x \<Longrightarrow> 0 \<le> fl x"
  using fl_mono [of 0 x] by simp

lemma level_notional_fl_pos:
  assumes "0 < level_notional_fl level"
  shows "0 < price level * size_lvl level"
proof (rule ccontr)
  assume "\<not> 0 < price level * size_lvl level"
  then have "fl (price level * size_lvl level) \<le> 0" by (intro fl_nonpos) simp
  then show False using assms by (simp add: level_notional_fl_def)
qed

lemma level_notional_fl_bounds:
  assumes "0 < price level" "0 \<le> size_lvl level"
  shows "price level * size_lvl level * (1 - unit_roundoff) \<le> level_notional_fl level"
    and "level_notional_fl level \<le> price level * size_lvl level * (1 + unit_roundoff)"
  using assms fl_lower [of "price level * size_lvl level"] fl_upper [of "price level * size_lvl level"]
  by (simp_all add: level_notional_fl_def)

lemma walk_fl_Cons_skip:
  "level_notional_fl level \<le> 0 \<Longrightarrow> walk_levels_fl (level # rest) st = walk_levels_fl rest st"
  by simp

lemma walk_fl_Cons_fill:
  assumes "0 < level_notional_fl level" "remaining_notional st \<le> level_notional_fl level"
  shows "walk_levels_fl (level # rest) st
     = Inr \<lparr>remaining_notional = 0,
            total_cost = fl (total_cost st + remaining_notional st),
            total_shares = fl (total_shares st + fl (remaining_notional st / price level))\<rparr>"
proof -
  have "price level \<noteq> 0" using level_notional_fl_pos [OF assms(1)] by auto
  then show ?thesis using assms by (simp add: fl_truediv_def)
qed

lemma walk_fl_Cons_take:
  "0 < level_notional_fl level \<Longrightarrow> level_notional_fl level < remaining_notional st \<Longrightarrow>
   walk_levels_fl (level # rest) st
     = walk_levels_fl rest
         \<lparr>remaining_notional = fl (remaining_notional st - level_notional_fl level),
          total_cost = fl (total_cost st + level_notional_fl level),
          total_shares = fl (total_shares st + size_lvl level)\<rparr>"
  by simp

lemma walk_levels_fl_total: "\<exists>st'. walk_levels_fl levels st = Inr st'"
proof (induction levels arbitrary: st)
  case Nil
  then show ?case by simp
next
  case (Cons level rest)
  consider "level_notional_fl level \<le> 0"
    | "0 < level_notional_fl level" "remaining_notional st \<le> level_notional_fl level"
    | "0 < level_notional_fl level" "level_notional_fl level < remaining_notional st"
    by linarith
  then show ?case
  proof cases
    case 1
    then show ?thesis using Cons.IH by (simp only: walk_fl_Cons_skip)
  next
    case 2
    then show ?thesis by (simp only: walk_fl_Cons_fill) blast
  next
    case 3
    then show ?thesis using Cons.IH by (simp only: walk_fl_Cons_take)
  qed
qed

text \<open>Scaling by powers of the two rounding factors.\<close>

lemma shrink_step:
  assumes "0 \<le> a"
  shows "a * (1 - unit_roundoff) ^ Suc k \<le> a * (1 - unit_roundoff) ^ k"
proof -
  have "(1 - unit_roundoff) ^ Suc k \<le> (1 - unit_roundoff) ^ k"
    using unit_roundoff_bounds by (intro power_decreasing) simp_all
  then show ?thesis using assms by (rule mult_left_mono)
qed

lemma grow_step:
  assumes "0 \<le> a"
  shows "a * (1 + unit_roundoff) ^ k \<le> a * (1 + unit_roundoff) ^ Suc k"
proof -
  have "(1 + unit_roundoff) ^ k \<le> (1 + unit_roundoff) ^ Suc k"
    using unit_roundoff_bounds by (intro power_increasing) simp_all
  then show ?thesis using assms by (rule mult_left_mono)
qed

lemma shrink_trans:
  assumes "0 \<le> a" "a * (1 - unit_roundoff) ^ k \<le> c"
  shows "a * (1 - unit_roundoff) ^ Suc k \<le> c"
  using shrink_step [OF assms(1), of k] assms(2) by linarith

lemma grow_trans:
  assumes "0 \<le> a" "c \<le> a * (1 + unit_roundoff) ^ k"
  shows "c \<le> a * (1 + unit_roundoff) ^ Suc k"
  using grow_step [OF assms(1), of k] assms(2) by linarith

lemma square_shrink:
  assumes "0 \<le> a"
  shows "a * (1 - unit_roundoff * unit_roundoff) \<le> a"
proof -
  have "0 \<le> a * (unit_roundoff * unit_roundoff)" using assms by simp
  then show ?thesis by (simp add: right_diff_distrib)
qed

lemma acc_lower:
  assumes "0 \<le> a" "0 \<le> X" "(fl a + X) * (1 - unit_roundoff) ^ k \<le> c"
  shows "(a + X) * (1 - unit_roundoff) ^ Suc k \<le> c"
proof -
  have "X * (1 - unit_roundoff) \<le> X" using assms(2) unit_roundoff_bounds
    by (simp add: mult_left_le)
  then have "(a + X) * (1 - unit_roundoff) \<le> fl a + X"
    using fl_lower [OF assms(1)] by (simp add: distrib_right)
  then have "(a + X) * (1 - unit_roundoff) * (1 - unit_roundoff) ^ k
      \<le> (fl a + X) * (1 - unit_roundoff) ^ k"
    using unit_roundoff_bounds by (intro mult_right_mono) simp_all
  then show ?thesis using assms(3) by (simp add: mult.assoc)
qed

lemma acc_upper:
  assumes "0 \<le> a" "0 \<le> X" "c \<le> (fl a + X) * (1 + unit_roundoff) ^ k"
  shows "c \<le> (a + X) * (1 + unit_roundoff) ^ Suc k"
proof -
  have "X \<le> X * (1 + unit_roundoff)" using assms(2) unit_roundoff_bounds
    by (simp add: mult_le_cancel_left1)
  then have "fl a + X \<le> (a + X) * (1 + unit_roundoff)"
    using fl_upper [OF assms(1)] by (simp add: distrib_right)
  then have "(fl a + X) * (1 + unit_roundoff) ^ k
      \<le> (a + X) * (1 + unit_roundoff) * (1 + unit_roundoff) ^ k"
    using unit_roundoff_bounds by (intro mult_right_mono) simp_all
  then show ?thesis using assms(3) by (simp add: mult.assoc)
qed

lemma walk_fl_success:
  assumes "\<forall>l\<in>set levels. 0 < price l \<and> 0 \<le> size_lvl l"
    and "0 < remaining_notional st" and "0 \<le> total_cost st" and "0 \<le> total_shares st"
    and "walk_levels_fl levels st = Inr t" and "remaining_notional t \<le> 0"
  shows "\<exists>X Y. 0 < X \<and> 0 < Y
      \<and> (total_cost st + X) * (1 - unit_roundoff) ^ length levels \<le> total_cost t
      \<and> total_cost t \<le> (total_cost st + X) * (1 + unit_roundoff) ^ length levels
      \<and> (total_shares st + Y) * (1 - unit_roundoff) ^ length levels \<le> total_shares t
      \<and> total_shares t \<le> (total_shares st + Y) * (1 + unit_roundoff) ^ length levels
      \<and> (\<forall>lo. (\<forall>l\<in>set (levels_used_fl levels (remaining_notional st)). lo \<le> price l)
            \<longrightarrow> lo * (1 - unit_roundoff) * Y \<le> X)
      \<and> (\<forall>hi. (\<forall>l\<in>set (levels_used_fl levels (remaining_notional st)). price l \<le> hi)
            \<longrightarrow> X * (1 - unit_roundoff) \<le> hi * Y)
      \<and> levels_used_fl levels (remaining_notional st) \<noteq> []"
  using assms
proof (induction levels arbitrary: st)
  case Nil
  then show ?case by simp
next
  case (Cons level rest)
  let ?u = unit_roundoff
  let ?p = "price level" and ?z = "size_lvl level" and ?n = "level_notional_fl level"
  let ?r = "remaining_notional st" and ?C = "total_cost st" and ?S = "total_shares st"
  note u = unit_roundoff_bounds
  have p: "0 < ?p" and z: "0 \<le> ?z" using Cons.prems(1) by simp_all
  have rest: "\<forall>l\<in>set rest. 0 < price l \<and> 0 \<le> size_lvl l" using Cons.prems(1) by simp
  have r: "0 < ?r" and C: "0 \<le> ?C" and S: "0 \<le> ?S" using Cons.prems by simp_all
  consider (skip) "?n \<le> 0"
    | (fill) "0 < ?n" "?r \<le> ?n"
    | (take) "0 < ?n" "?n < ?r"
    by linarith
  then show ?case
  proof cases
    case skip
    then have w: "walk_levels_fl rest st = Inr t" using Cons.prems(5) by simp
    have used: "levels_used_fl (level # rest) ?r = levels_used_fl rest ?r" using skip by simp
    from Cons.IH [OF rest r C S w Cons.prems(6)]
    obtain X Y where xy: "0 < X" "0 < Y"
      "(?C + X) * (1 - ?u) ^ length rest \<le> total_cost t"
      "total_cost t \<le> (?C + X) * (1 + ?u) ^ length rest"
      "(?S + Y) * (1 - ?u) ^ length rest \<le> total_shares t"
      "total_shares t \<le> (?S + Y) * (1 + ?u) ^ length rest"
      "\<forall>lo. (\<forall>l\<in>set (levels_used_fl rest ?r). lo \<le> price l) \<longrightarrow> lo * (1 - ?u) * Y \<le> X"
      "\<forall>hi. (\<forall>l\<in>set (levels_used_fl rest ?r). price l \<le> hi) \<longrightarrow> X * (1 - ?u) \<le> hi * Y"
      "levels_used_fl rest ?r \<noteq> []"
      by blast
    have a: "(?C + X) * (1 - ?u) ^ length (level # rest) \<le> total_cost t"
      using shrink_trans [of "?C + X" "length rest" "total_cost t"] xy(1,3) C by simp
    have b: "total_cost t \<le> (?C + X) * (1 + ?u) ^ length (level # rest)"
      using grow_trans [of "?C + X" "total_cost t" "length rest"] xy(1,4) C by simp
    have c: "(?S + Y) * (1 - ?u) ^ length (level # rest) \<le> total_shares t"
      using shrink_trans [of "?S + Y" "length rest" "total_shares t"] xy(2,5) S by simp
    have d: "total_shares t \<le> (?S + Y) * (1 + ?u) ^ length (level # rest)"
      using grow_trans [of "?S + Y" "total_shares t" "length rest"] xy(2,6) S by simp
    show ?thesis unfolding used using xy(1,2,7,8,9) a b c d by blast
  next
    case fill
    let ?fs = "fl (?r / ?p)"
    have t: "t = \<lparr>remaining_notional = 0, total_cost = fl (?C + ?r),
            total_shares = fl (?S + ?fs)\<rparr>"
      using walk_fl_Cons_fill [OF fill, of rest] Cons.prems(5) by simp
    have used: "levels_used_fl (level # rest) ?r = [level]" using fill by simp
    have q: "0 < ?r / ?p" using r p by simp
    have fs: "0 < ?fs" using q by (rule fl_pos)
    have fs_lo: "?r / ?p * (1 - ?u) \<le> ?fs" using q by (intro fl_lower) simp
    have fs_hi: "?fs \<le> ?r / ?p * (1 + ?u)" using q by (intro fl_upper) simp
    have pfs_lo: "?r * (1 - ?u) \<le> ?p * ?fs"
    proof -
      have "?p * (?r / ?p * (1 - ?u)) \<le> ?p * ?fs" using fs_lo p by (intro mult_left_mono) simp_all
      then show ?thesis using p by simp
    qed
    have pfs_hi: "?p * ?fs \<le> ?r * (1 + ?u)"
    proof -
      have "?p * ?fs \<le> ?p * (?r / ?p * (1 + ?u))" using fs_hi p by (intro mult_left_mono) simp_all
      then show ?thesis using p by simp
    qed
    have a0: "(?C + ?r) * (1 - ?u) \<le> fl (?C + ?r)" using C r by (intro fl_lower) simp
    have b0: "fl (?C + ?r) \<le> (?C + ?r) * (1 + ?u)" using C r by (intro fl_upper) simp
    have c0: "(?S + ?fs) * (1 - ?u) \<le> fl (?S + ?fs)" using S fs by (intro fl_lower) simp
    have d0: "fl (?S + ?fs) \<le> (?S + ?fs) * (1 + ?u)" using S fs by (intro fl_upper) simp
    have a: "(?C + ?r) * (1 - ?u) ^ length (level # rest) \<le> total_cost t"
    proof -
      have "(?C + ?r) * (1 - ?u) ^ length (level # rest) \<le> (?C + ?r) * (1 - ?u) ^ 1"
        using C r u by (intro mult_left_mono power_decreasing) simp_all
      then show ?thesis using a0 by (simp add: t)
    qed
    have b: "total_cost t \<le> (?C + ?r) * (1 + ?u) ^ length (level # rest)"
    proof -
      have "(?C + ?r) * (1 + ?u) ^ 1 \<le> (?C + ?r) * (1 + ?u) ^ length (level # rest)"
        using C r u by (intro mult_left_mono power_increasing) simp_all
      then show ?thesis using b0 by (simp add: t)
    qed
    have c: "(?S + ?fs) * (1 - ?u) ^ length (level # rest) \<le> total_shares t"
    proof -
      have "(?S + ?fs) * (1 - ?u) ^ length (level # rest) \<le> (?S + ?fs) * (1 - ?u) ^ 1"
        using S fs u by (intro mult_left_mono power_decreasing) simp_all
      then show ?thesis using c0 by (simp add: t)
    qed
    have d: "total_shares t \<le> (?S + ?fs) * (1 + ?u) ^ length (level # rest)"
    proof -
      have "(?S + ?fs) * (1 + ?u) ^ 1 \<le> (?S + ?fs) * (1 + ?u) ^ length (level # rest)"
        using S fs u by (intro mult_left_mono power_increasing) simp_all
      then show ?thesis using d0 by (simp add: t)
    qed
    have lo: "lo * (1 - ?u) * ?fs \<le> ?r" if "lo \<le> ?p" for lo
    proof -
      have "lo * ((1 - ?u) * ?fs) \<le> ?p * ((1 - ?u) * ?fs)"
        using that fs u by (intro mult_right_mono) simp_all
      also have "\<dots> = (1 - ?u) * (?p * ?fs)" by simp
      also have "\<dots> \<le> (1 - ?u) * (?r * (1 + ?u))"
        using pfs_hi u by (intro mult_left_mono) simp_all
      also have "\<dots> = ?r * (1 - ?u * ?u)" by (simp add: algebra_simps)
      also have "\<dots> \<le> ?r" using r by (intro square_shrink) simp
      finally show ?thesis by (simp add: mult.assoc)
    qed
    have hi: "?r * (1 - ?u) \<le> hi * ?fs" if "?p \<le> hi" for hi
    proof -
      have "?p * ?fs \<le> hi * ?fs" using that fs by (intro mult_right_mono) simp_all
      then show ?thesis using pfs_lo by linarith
    qed
    show ?thesis unfolding used using r fs a b c d lo hi
      by (intro exI [of _ ?r] exI [of _ ?fs]) simp
  next
    case take
    let ?st = "\<lparr>remaining_notional = fl (?r - ?n), total_cost = fl (?C + ?n),
          total_shares = fl (?S + ?z)\<rparr>"
    have w: "walk_levels_fl rest ?st = Inr t"
      using walk_fl_Cons_take [OF take, of rest] Cons.prems(5) by simp
    have used: "levels_used_fl (level # rest) ?r = level # levels_used_fl rest (fl (?r - ?n))"
      using take by simp
    have pz: "0 < ?p * ?z" using take(1) by (rule level_notional_fl_pos)
    then have zpos: "0 < ?z" using p by (simp add: zero_less_mult_iff)
    have n_lo: "?p * ?z * (1 - ?u) \<le> ?n" and n_hi: "?n \<le> ?p * ?z * (1 + ?u)"
      using level_notional_fl_bounds [OF p z] by simp_all
    have r': "0 < remaining_notional ?st" using take(2) by (simp add: fl_pos)
    have C': "0 \<le> total_cost ?st" using C take(1) by (simp add: fl_nonneg)
    have S': "0 \<le> total_shares ?st" using S z by (simp add: fl_nonneg)
    from Cons.IH [OF rest r' C' S' w Cons.prems(6)]
    obtain X Y where xy: "0 < X" "0 < Y"
      "(fl (?C + ?n) + X) * (1 - ?u) ^ length rest \<le> total_cost t"
      "total_cost t \<le> (fl (?C + ?n) + X) * (1 + ?u) ^ length rest"
      "(fl (?S + ?z) + Y) * (1 - ?u) ^ length rest \<le> total_shares t"
      "total_shares t \<le> (fl (?S + ?z) + Y) * (1 + ?u) ^ length rest"
      "\<forall>lo. (\<forall>l\<in>set (levels_used_fl rest (fl (?r - ?n))). lo \<le> price l)
          \<longrightarrow> lo * (1 - ?u) * Y \<le> X"
      "\<forall>hi. (\<forall>l\<in>set (levels_used_fl rest (fl (?r - ?n))). price l \<le> hi)
          \<longrightarrow> X * (1 - ?u) \<le> hi * Y"
      by (simp del: walk_levels_fl.simps levels_used_fl.simps) blast
    have a: "(?C + (?n + X)) * (1 - ?u) ^ length (level # rest) \<le> total_cost t"
      using acc_lower [of "?C + ?n" X "length rest" "total_cost t"] C take(1) xy(1,3)
      by (simp add: add.assoc)
    have b: "total_cost t \<le> (?C + (?n + X)) * (1 + ?u) ^ length (level # rest)"
      using acc_upper [of "?C + ?n" X "total_cost t" "length rest"] C take(1) xy(1,4)
      by (simp add: add.assoc)
    have c: "(?S + (?z + Y)) * (1 - ?u) ^ length (level # rest) \<le> total_shares t"
      using acc_lower [of "?S + ?z" Y "length rest" "total_shares t"] S z xy(2,5)
      by (simp add: add.assoc)
    have d: "total_shares t \<le> (?S + (?z + Y)) * (1 + ?u) ^ length (level # rest)"
      using acc_upper [of "?S + ?z" Y "total_shares t" "length rest"] S z xy(2,6)
      by (simp add: add.assoc)
    have lo: "lo * (1 - ?u) * (?z + Y) \<le> ?n + X"
      if h: "\<forall>l\<in>set (levels_used_fl (level # rest) ?r). lo \<le> price l" for lo
    proof -
      have lp: "lo \<le> ?p" using h used by simp
      have "\<forall>l\<in>set (levels_used_fl rest (fl (?r - ?n))). lo \<le> price l" using h used by simp
      with xy(7) have i: "lo * (1 - ?u) * Y \<le> X" by blast
      have "lo * ((1 - ?u) * ?z) \<le> ?p * ((1 - ?u) * ?z)"
        using lp z u by (intro mult_right_mono) simp_all
      then have "lo * (1 - ?u) * ?z \<le> ?n" using n_lo by (simp add: mult.assoc mult.left_commute mult.commute)
      then show ?thesis using i by (simp add: distrib_left)
    qed
    have hi: "(?n + X) * (1 - ?u) \<le> hi * (?z + Y)"
      if h: "\<forall>l\<in>set (levels_used_fl (level # rest) ?r). price l \<le> hi" for hi
    proof -
      have lp: "?p \<le> hi" using h used by simp
      have "\<forall>l\<in>set (levels_used_fl rest (fl (?r - ?n))). price l \<le> hi" using h used by simp
      with xy(8) have i: "X * (1 - ?u) \<le> hi * Y" by blast
      have "?n * (1 - ?u) \<le> ?p * ?z * (1 + ?u) * (1 - ?u)"
        using n_hi u by (intro mult_right_mono) simp_all
      also have "\<dots> = ?p * ?z * (1 - ?u * ?u)" by (simp add: algebra_simps)
      also have "\<dots> \<le> ?p * ?z" using pz by (intro square_shrink) simp
      also have "\<dots> \<le> hi * ?z" using lp z by (intro mult_right_mono)
      finally show ?thesis using i by (simp add: distrib_left distrib_right)
    qed
    have pos: "0 < ?n + X" "0 < ?z + Y" using take(1) xy(1,2) z by simp_all
    have ne: "levels_used_fl (level # rest) ?r \<noteq> []" using used by simp
    show ?thesis
      by (intro exI [of _ "?n + X"] exI [of _ "?z + Y"] conjI allI impI)
        (use pos a b c d lo hi ne in blast)+
  qed
qed

lemma rounding_tolerance_pos: "0 < rounding_tolerance k"
  using unit_roundoff_bounds by (simp add: rounding_tolerance_def)

lemma tolerance_intro:
  assumes "a * (1 - unit_roundoff) ^ k \<le> b * (1 + unit_roundoff) ^ k"
  shows "a \<le> b * rounding_tolerance k"
proof -
  have d: "0 < (1 - unit_roundoff) ^ k" using unit_roundoff_bounds by simp
  have "a \<le> b * (1 + unit_roundoff) ^ k / (1 - unit_roundoff) ^ k"
    using assms d by (simp add: pos_le_divide_eq)
  then show ?thesis by (simp add: rounding_tolerance_def power_divide)
qed

lemma tolerance_elim:
  assumes "a * rounding_tolerance k \<le> b"
  shows "a * (1 + unit_roundoff) ^ k \<le> b * (1 - unit_roundoff) ^ k"
proof -
  have d: "0 < (1 - unit_roundoff) ^ k" using unit_roundoff_bounds by simp
  have "a * (1 + unit_roundoff) ^ k / (1 - unit_roundoff) ^ k \<le> b"
    using assms by (simp add: rounding_tolerance_def power_divide)
  then show ?thesis using d by (simp add: pos_divide_le_eq)
qed

lemma tolerance_elim_less:
  assumes "a * rounding_tolerance k < b"
  shows "a * (1 + unit_roundoff) ^ k < b * (1 - unit_roundoff) ^ k"
proof -
  have d: "0 < (1 - unit_roundoff) ^ k" using unit_roundoff_bounds by simp
  have "a * (1 + unit_roundoff) ^ k / (1 - unit_roundoff) ^ k < b"
    using assms by (simp add: rounding_tolerance_def power_divide)
  then show ?thesis using d by (simp add: pos_divide_less_eq)
qed

lemma shrink_le:
  assumes "0 \<le> a" "j \<le> k"
  shows "a * (1 - unit_roundoff) ^ k \<le> a * (1 - unit_roundoff) ^ j"
  using assms unit_roundoff_bounds by (intro mult_left_mono power_decreasing) simp_all

lemma grow_le:
  assumes "0 \<le> a" "j \<le> k"
  shows "a * (1 + unit_roundoff) ^ j \<le> a * (1 + unit_roundoff) ^ k"
  using assms unit_roundoff_bounds by (intro mult_left_mono power_increasing) simp_all

lemma notional_fl_zero:
  assumes "0 < price l" "0 \<le> size_lvl l" "level_notional_fl l \<le> 0"
  shows "level_notional l = 0"
proof -
  have "\<not> 0 < price l * size_lvl l"
    using assms(3) fl_pos [of "price l * size_lvl l"] by (auto simp: level_notional_fl_def)
  then show ?thesis using assms(1,2) by (simp add: level_notional_def zero_less_mult_iff)
qed

lemma walk_fl_short:
  assumes "\<forall>l\<in>set levels. 0 < price l \<and> 0 \<le> size_lvl l"
    and "0 < remaining_notional st"
    and "walk_levels_fl levels st = Inr t" and "0 < remaining_notional t"
  shows "(1 - unit_roundoff) * sum_list (map level_notional levels)
           < remaining_notional st * (1 + unit_roundoff) ^ length levels"
  using assms
proof (induction levels arbitrary: st)
  case Nil
  then show ?case by simp
next
  case (Cons level rest)
  let ?u = unit_roundoff
  let ?p = "price level" and ?z = "size_lvl level" and ?n = "level_notional_fl level"
  let ?r = "remaining_notional st"
  let ?L = "sum_list (map level_notional rest)"
  note u = unit_roundoff_bounds
  have p: "0 < ?p" and z: "0 \<le> ?z" using Cons.prems(1) by simp_all
  have rest: "\<forall>l\<in>set rest. 0 < price l \<and> 0 \<le> size_lvl l" using Cons.prems(1) by simp
  have r: "0 < ?r" by fact
  consider (skip) "?n \<le> 0" | (fill) "0 < ?n" "?r \<le> ?n" | (take) "0 < ?n" "?n < ?r"
    by linarith
  then show ?case
  proof cases
    case skip
    then have w: "walk_levels_fl rest st = Inr t" using Cons.prems(3) by simp
    have "level_notional level = 0" using p z skip by (rule notional_fl_zero)
    moreover have "(1 - ?u) * ?L < ?r * (1 + ?u) ^ length rest"
      using Cons.IH [OF rest r w Cons.prems(4)] .
    moreover have "?r * (1 + ?u) ^ length rest \<le> ?r * (1 + ?u) ^ Suc (length rest)"
      using r by (intro grow_step) simp
    ultimately show ?thesis by simp
  next
    case fill
    have "remaining_notional t = 0"
      using walk_fl_Cons_fill [OF fill, of rest] Cons.prems(3) by auto
    then show ?thesis using Cons.prems(4) by simp
  next
    case take
    let ?st = "\<lparr>remaining_notional = fl (?r - ?n), total_cost = fl (total_cost st + ?n),
          total_shares = fl (total_shares st + ?z)\<rparr>"
    have w: "walk_levels_fl rest ?st = Inr t"
      using walk_fl_Cons_take [OF take, of rest] Cons.prems(3) by simp
    have r': "0 < remaining_notional ?st" using take(2) by (simp add: fl_pos)
    have ih: "(1 - ?u) * ?L < fl (?r - ?n) * (1 + ?u) ^ length rest"
      using Cons.IH [OF rest r' w Cons.prems(4)] by simp
    have "fl (?r - ?n) \<le> (?r - ?n) * (1 + ?u)" using take(2) by (intro fl_upper) simp
    then have "fl (?r - ?n) * (1 + ?u) ^ length rest
        \<le> (?r - ?n) * (1 + ?u) * (1 + ?u) ^ length rest"
      using u by (intro mult_right_mono) simp_all
    then have a: "(1 - ?u) * ?L < (?r - ?n) * (1 + ?u) ^ Suc (length rest)"
      using ih by (simp add: mult.assoc)
    have "level_notional level * (1 - ?u) \<le> ?n"
      using level_notional_fl_bounds(1) [OF p z] by (simp add: level_notional_def)
    moreover have "?n * (1 + ?u) ^ 0 \<le> ?n * (1 + ?u) ^ Suc (length rest)"
      using take(1) by (intro grow_le) simp_all
    ultimately have b: "(1 - ?u) * level_notional level \<le> ?n * (1 + ?u) ^ Suc (length rest)"
      by (simp add: mult.commute)
    have "(1 - ?u) * (level_notional level + ?L)
        < ?n * (1 + ?u) ^ Suc (length rest) + (?r - ?n) * (1 + ?u) ^ Suc (length rest)"
      using a b by (simp add: distrib_left)
    also have "\<dots> = ?r * (1 + ?u) ^ Suc (length rest)"
      by (simp add: algebra_simps)
    finally show ?thesis by simp
  qed
qed

lemma walk_fl_filled:
  assumes "\<forall>l\<in>set levels. 0 < price l \<and> 0 \<le> size_lvl l"
    and "0 < remaining_notional st"
    and "walk_levels_fl levels st = Inr t" and "remaining_notional t \<le> 0"
  shows "remaining_notional st * (1 - unit_roundoff) ^ length levels
           \<le> (1 + unit_roundoff) * sum_list (map level_notional levels)"
  using assms
proof (induction levels arbitrary: st)
  case Nil
  then show ?case by simp
next
  case (Cons level rest)
  let ?u = unit_roundoff
  let ?p = "price level" and ?z = "size_lvl level" and ?n = "level_notional_fl level"
  let ?r = "remaining_notional st"
  let ?L = "sum_list (map level_notional rest)"
  note u = unit_roundoff_bounds
  have p: "0 < ?p" and z: "0 \<le> ?z" using Cons.prems(1) by simp_all
  have rest: "\<forall>l\<in>set rest. 0 < price l \<and> 0 \<le> size_lvl l" using Cons.prems(1) by simp
  have L0: "0 \<le> ?L" using rest by (rule sum_notional_nonneg)
  have r: "0 < ?r" by fact
  have n_hi: "?n \<le> (1 + ?u) * level_notional level"
    using level_notional_fl_bounds(2) [OF p z] by (simp add: level_notional_def mult.commute)
  consider (skip) "?n \<le> 0" | (fill) "0 < ?n" "?r \<le> ?n" | (take) "0 < ?n" "?n < ?r"
    by linarith
  then show ?case
  proof cases
    case skip
    then have w: "walk_levels_fl rest st = Inr t" using Cons.prems(3) by simp
    have "level_notional level = 0" using p z skip by (rule notional_fl_zero)
    moreover have "?r * (1 - ?u) ^ length rest \<le> (1 + ?u) * ?L"
      using Cons.IH [OF rest r w Cons.prems(4)] .
    moreover have "?r * (1 - ?u) ^ Suc (length rest) \<le> ?r * (1 - ?u) ^ length rest"
      using r by (intro shrink_step) simp
    ultimately show ?thesis by simp
  next
    case fill
    have "?r * (1 - ?u) ^ Suc (length rest) \<le> ?r * (1 - ?u) ^ 0"
      using r by (intro shrink_le) simp_all
    moreover have "0 \<le> (1 + ?u) * ?L" using L0 u by simp
    ultimately show ?thesis using fill(2) n_hi by (simp add: distrib_left)
  next
    case take
    let ?st = "\<lparr>remaining_notional = fl (?r - ?n), total_cost = fl (total_cost st + ?n),
          total_shares = fl (total_shares st + ?z)\<rparr>"
    have w: "walk_levels_fl rest ?st = Inr t"
      using walk_fl_Cons_take [OF take, of rest] Cons.prems(3) by simp
    have r': "0 < remaining_notional ?st" using take(2) by (simp add: fl_pos)
    have ih: "fl (?r - ?n) * (1 - ?u) ^ length rest \<le> (1 + ?u) * ?L"
      using Cons.IH [OF rest r' w Cons.prems(4)] by simp
    have "(?r - ?n) * (1 - ?u) \<le> fl (?r - ?n)" using take(2) by (intro fl_lower) simp
    then have "(?r - ?n) * (1 - ?u) * (1 - ?u) ^ length rest
        \<le> fl (?r - ?n) * (1 - ?u) ^ length rest"
      using u by (intro mult_right_mono) simp_all
    then have a: "(?r - ?n) * (1 - ?u) ^ Suc (length rest) \<le> (1 + ?u) * ?L"
      using ih by (simp add: mult.assoc)
    have "?n * (1 - ?u) ^ Suc (length rest) \<le> ?n * (1 - ?u) ^ 0"
      using take(1) by (intro shrink_le) simp_all
    then have b: "?n * (1 - ?u) ^ Suc (length rest) \<le> (1 + ?u) * level_notional level"
      using n_hi by simp
    have "?r * (1 - ?u) ^ Suc (length rest)
        = ?n * (1 - ?u) ^ Suc (length rest) + (?r - ?n) * (1 - ?u) ^ Suc (length rest)"
      by (simp add: algebra_simps)
    also have "\<dots> \<le> (1 + ?u) * level_notional level + (1 + ?u) * ?L"
      using a b by linarith
    finally show ?thesis by (simp add: distrib_left)
  qed
qed

lemma levels_used_fl_subset: "set (levels_used_fl levels r) \<subseteq> set levels"
  by (induction levels arbitrary: r) auto

text \<open>What a successful double-precision call returns.\<close>

lemma calc_fl_ok:
  assumes "calculate_effective_price_fl orderbook side n = Inr p"
  shows "0 < n \<and> (\<exists>t. walk_levels_fl (side_levels orderbook side) (initial_state n) = Inr t
            \<and> remaining_notional t \<le> 0 \<and> 0 < total_shares t
            \<and> p = fl (total_cost t / total_shares t))"
proof -
  obtain t where t: "walk_levels_fl (side_levels orderbook side) (initial_state n) = Inr t"
    using walk_levels_fl_total by blast
  show ?thesis using assms
    by (auto simp: calculate_effective_price_fl_def t fl_truediv_def split: if_splits)
qed

lemma calc_fl_depth:
  assumes "0 < n" "walk_levels_fl (side_levels orderbook side) (initial_state n) = Inr t"
    "0 < remaining_notional t"
  shows "calculate_effective_price_fl orderbook side n = Inl OrderbookDepthError"
  using assms by (simp add: calculate_effective_price_fl_def)

lemma calc_fl_success:
  assumes "0 < n" "walk_levels_fl (side_levels orderbook side) (initial_state n) = Inr t"
    "remaining_notional t \<le> 0" "0 < total_shares t"
  shows "calculate_effective_price_fl orderbook side n = Inr (fl (total_cost t / total_shares t))"
  using assms by (simp add: calculate_effective_price_fl_def fl_truediv_def)

text \<open>The price of a successful walk from the initial state, against bounds on the
  prices of the levels used.\<close>

lemma price_fl_range:
  assumes ok: "\<forall>l\<in>set levels. 0 < price l \<and> 0 \<le> size_lvl l"
    and n: "0 < n"
    and w: "walk_levels_fl levels (initial_state n) = Inr t"
    and f: "remaining_notional t \<le> 0"
  shows "0 < total_shares t \<and> 0 < total_cost t
      \<and> levels_used_fl levels n \<noteq> []
      \<and> (\<forall>lo. 0 \<le> lo \<longrightarrow> (\<forall>l\<in>set (levels_used_fl levels n). lo \<le> price l)
            \<longrightarrow> lo \<le> fl (total_cost t / total_shares t) * rounding_tolerance (length levels + 2))
      \<and> (\<forall>hi. (\<forall>l\<in>set (levels_used_fl levels n). price l \<le> hi)
            \<longrightarrow> fl (total_cost t / total_shares t) \<le> hi * rounding_tolerance (length levels + 2))"
proof -
  let ?u = unit_roundoff
  let ?m = "length levels"
  let ?C = "total_cost t" and ?S = "total_shares t"
  let ?v = "fl (?C / ?S)"
  note u = unit_roundoff_bounds
  have i: "0 < remaining_notional (initial_state n)" "0 \<le> total_cost (initial_state n)"
    "0 \<le> total_shares (initial_state n)"
    using n by (simp_all add: initial_state_def)
  from walk_fl_success [OF ok i w f]
  obtain X Y where xy: "0 < X" "0 < Y"
    "X * (1 - ?u) ^ ?m \<le> ?C" "?C \<le> X * (1 + ?u) ^ ?m"
    "Y * (1 - ?u) ^ ?m \<le> ?S" "?S \<le> Y * (1 + ?u) ^ ?m"
    "\<forall>lo. (\<forall>l\<in>set (levels_used_fl levels n). lo \<le> price l) \<longrightarrow> lo * (1 - ?u) * Y \<le> X"
    "\<forall>hi. (\<forall>l\<in>set (levels_used_fl levels n). price l \<le> hi) \<longrightarrow> X * (1 - ?u) \<le> hi * Y"
    "levels_used_fl levels n \<noteq> []"
    by (auto simp: initial_state_def)
  have S: "0 < ?S"
  proof -
    have "0 < Y * (1 - ?u) ^ ?m" using xy(2) u by simp
    then show ?thesis using xy(5) by linarith
  qed
  have C: "0 < ?C"
  proof -
    have "0 < X * (1 - ?u) ^ ?m" using xy(1) u by simp
    then show ?thesis using xy(3) by linarith
  qed
  have q: "0 \<le> ?C / ?S" using C S by simp
  have v0: "0 \<le> ?v" using q by (rule fl_nonneg)
  have v_lo: "?C * (1 - ?u) \<le> ?v * ?S"
  proof -
    have "?C / ?S * (1 - ?u) * ?S \<le> ?v * ?S"
      using fl_lower [OF q] S by (intro mult_right_mono) simp_all
    then show ?thesis using S by simp
  qed
  have v_hi: "?v * ?S \<le> ?C * (1 + ?u)"
  proof -
    have "?v * ?S \<le> ?C / ?S * (1 + ?u) * ?S"
      using fl_upper [OF q] S by (intro mult_right_mono) simp_all
    then show ?thesis using S by simp
  qed
  have lower: "lo \<le> ?v * rounding_tolerance (?m + 2)"
    if lo0: "0 \<le> lo" and h: "\<forall>l\<in>set (levels_used_fl levels n). lo \<le> price l" for lo
  proof -
    from xy(7) h have a: "lo * (1 - ?u) * Y \<le> X" by blast
    have "lo * (1 - ?u) * Y * (1 - ?u) ^ ?m \<le> X * (1 - ?u) ^ ?m"
      using a u by (intro mult_right_mono) simp_all
    then have "lo * (1 - ?u) * Y * (1 - ?u) ^ ?m \<le> ?C" using xy(3) by linarith
    then have "lo * (1 - ?u) * Y * (1 - ?u) ^ ?m * (1 - ?u) \<le> ?C * (1 - ?u)"
      using u by (intro mult_right_mono) simp_all
    then have "lo * (1 - ?u) * Y * (1 - ?u) ^ ?m * (1 - ?u) \<le> ?v * ?S" using v_lo by linarith
    moreover have "?v * ?S \<le> ?v * (Y * (1 + ?u) ^ ?m)"
      using v0 xy(6) by (intro mult_left_mono)
    ultimately have "(lo * (1 - ?u) ^ (?m + 2)) * Y \<le> (?v * (1 + ?u) ^ ?m) * Y"
      by (simp add: algebra_simps power2_eq_square)
    then have "lo * (1 - ?u) ^ (?m + 2) \<le> ?v * (1 + ?u) ^ ?m"
      using xy(2) by (simp only: mult_le_cancel_right_pos)
    moreover have "?v * (1 + ?u) ^ ?m \<le> ?v * (1 + ?u) ^ (?m + 2)"
      using v0 by (intro grow_le) simp_all
    ultimately have "lo * (1 - ?u) ^ (?m + 2) \<le> ?v * (1 + ?u) ^ (?m + 2)" by linarith
    then show ?thesis by (rule tolerance_intro)
  qed
  have upper: "?v \<le> hi * rounding_tolerance (?m + 2)"
    if h: "\<forall>l\<in>set (levels_used_fl levels n). price l \<le> hi" for hi
  proof -
    from xy(8) h have a: "X * (1 - ?u) \<le> hi * Y" by blast
    have hi0: "0 \<le> hi"
    proof -
      have "0 < X * (1 - ?u)" using xy(1) u by simp
      then have "0 < hi * Y" using a by linarith
      then show ?thesis using xy(2) by (simp add: zero_less_mult_iff)
    qed
    have "?v * (Y * (1 - ?u) ^ ?m) \<le> ?v * ?S" using v0 xy(5) by (intro mult_left_mono)
    then have "?v * (Y * (1 - ?u) ^ ?m) \<le> ?C * (1 + ?u)" using v_hi by linarith
    moreover have "?C * (1 + ?u) \<le> X * (1 + ?u) ^ ?m * (1 + ?u)"
      using xy(4) u by (intro mult_right_mono) simp_all
    moreover have "X * (1 + ?u) ^ ?m * (1 + ?u) = X * (1 + ?u) ^ (?m + 1)" by simp
    ultimately have "?v * (Y * (1 - ?u) ^ ?m) \<le> X * (1 + ?u) ^ (?m + 1)" by linarith
    then have "?v * (Y * (1 - ?u) ^ ?m) * (1 - ?u) \<le> X * (1 + ?u) ^ (?m + 1) * (1 - ?u)"
      using u by (intro mult_right_mono) simp_all
    moreover have "X * (1 - ?u) * (1 + ?u) ^ (?m + 1) \<le> hi * Y * (1 + ?u) ^ (?m + 1)"
      using a u by (intro mult_right_mono) simp_all
    ultimately have "(?v * (1 - ?u) ^ (?m + 1)) * Y \<le> (hi * (1 + ?u) ^ (?m + 1)) * Y"
      by (simp add: algebra_simps)
    then have "?v * (1 - ?u) ^ (?m + 1) \<le> hi * (1 + ?u) ^ (?m + 1)"
      using xy(2) by (simp only: mult_le_cancel_right_pos)
    moreover have "?v * (1 - ?u) ^ (?m + 2) \<le> ?v * (1 - ?u) ^ (?m + 1)"
      using v0 by (intro shrink_le) simp_all
    moreover have "hi * (1 + ?u) ^ (?m + 1) \<le> hi * (1 + ?u) ^ (?m + 2)"
      using hi0 by (intro grow_le) simp_all
    ultimately have "?v * (1 - ?u) ^ (?m + 2) \<le> hi * (1 + ?u) ^ (?m + 2)" by linarith
    then show ?thesis by (rule tolerance_intro)
  qed
  show ?thesis using S C xy(9) lower upper by blast
qed

text \<open>Monotonicity of the rounded quotient of cost and shares in the starting notional, up to
  powers of the two rounding factors.\<close>

lemma avg_up:
  fixes a P h C S r1 y1 y2 X :: real
  assumes "0 \<le> C" "0 \<le> S" "0 \<le> y1" "y1 \<le> y2"
    and "a * C \<le> P * S" and "a * r1 \<le> P * y1" and "P * y2 \<le> h * X" and "a \<le> h"
  shows "a * ((C + r1) * (S + y2)) \<le> h * ((C + X) * (S + y1))"
proof -
  have "(a * C + a * r1) * (S + y2) \<le> (a * C + P * y1) * (S + y2)"
    using assms(2,3,4,6) by (intro mult_right_mono) simp_all
  moreover have "(a * C + P * y1) * (S + y2) \<le> (a * C + P * y2) * (S + y1)"
  proof -
    have "0 \<le> (P * S - a * C) * (y2 - y1)" using assms(4,5) by (intro mult_nonneg_nonneg) simp_all
    then show ?thesis by (simp add: algebra_simps)
  qed
  moreover have "(a * C + P * y2) * (S + y1) \<le> (h * C + h * X) * (S + y1)"
  proof -
    have "a * C \<le> h * C" using assms(1,8) by (rule mult_right_mono[rotated])
    then show ?thesis using assms(2,3,7) by (intro mult_right_mono) simp_all
  qed
  ultimately have "(a * C + a * r1) * (S + y2) \<le> (h * C + h * X) * (S + y1)" by linarith
  then show ?thesis by (simp add: algebra_simps)
qed

lemma avg_down:
  fixes a P k C S r1 y1 y2 X :: real
  assumes "0 \<le> C" "0 \<le> S" "0 \<le> y1" "y1 \<le> y2"
    and "P * S \<le> a * C" and "P * y1 \<le> a * r1" and "k * X \<le> P * y2" and "k \<le> a"
  shows "k * ((C + X) * (S + y1)) \<le> a * ((C + r1) * (S + y2))"
proof -
  have "(k * C + k * X) * (S + y1) \<le> (a * C + P * y2) * (S + y1)"
  proof -
    have "k * C \<le> a * C" using assms(1,8) by (rule mult_right_mono[rotated])
    then show ?thesis using assms(2,3,7) by (intro mult_right_mono) simp_all
  qed
  moreover have "(a * C + P * y2) * (S + y1) \<le> (a * C + P * y1) * (S + y2)"
  proof -
    have "0 \<le> (a * C - P * S) * (y2 - y1)" using assms(4,5) by (intro mult_nonneg_nonneg) simp_all
    then show ?thesis by (simp add: algebra_simps)
  qed
  moreover have "(a * C + P * y1) * (S + y2) \<le> (a * C + a * r1) * (S + y2)"
    using assms(2,3,4,6) by (intro mult_right_mono) simp_all
  ultimately have "(k * C + k * X) * (S + y1) \<le> (a * C + a * r1) * (S + y2)" by linarith
  then show ?thesis by (simp add: algebra_simps)
qed

lemma combine_bounds:
  fixes c1 s2 c2 s1 A B' E F gA gB dE dF a h :: real
  assumes "0 \<le> c1" "0 \<le> s2" "0 \<le> E" "0 \<le> F"
    and "0 \<le> gA" "0 \<le> gB" "0 \<le> dE" "0 \<le> dF" "0 \<le> a" "0 \<le> h"
    and "c1 \<le> gA * A" and "s2 \<le> gB * B'" and "E * dE \<le> c2" and "F * dF \<le> s1"
    and "a * (A * B') \<le> h * (E * F)"
  shows "c1 * s2 * (a * dE * dF) \<le> c2 * s1 * (h * gA * gB)"
proof -
  have "c1 * s2 \<le> (gA * A) * (gB * B')"
    using assms(1,2,11,12) by (intro mult_mono) linarith+
  then have "c1 * s2 * (a * dE * dF) \<le> (gA * A) * (gB * B') * (a * dE * dF)"
    using assms(7,8,9) by (intro mult_right_mono) simp_all
  also have "\<dots> = (gA * gB * dE * dF) * (a * (A * B'))" by (simp add: algebra_simps)
  also have "\<dots> \<le> (gA * gB * dE * dF) * (h * (E * F))"
    using assms(5,6,7,8,15) by (intro mult_left_mono) simp_all
  also have "\<dots> = (h * gA * gB) * ((E * dE) * (F * dF))" by (simp add: algebra_simps)
  also have "\<dots> \<le> (h * gA * gB) * (c2 * s1)"
  proof -
    have e: "0 \<le> E * dE" and f: "0 \<le> F * dF" using assms(3,4,7,8) by simp_all
    have "0 \<le> c2" using e assms(13) by linarith
    then have "(E * dE) * (F * dF) \<le> c2 * s1"
      using assms(13,14) f by (intro mult_mono)
    then show ?thesis using assms(5,6,10) by (intro mult_left_mono) simp_all
  qed
  finally show ?thesis by (simp add: algebra_simps)
qed

lemma tolerance_weaken:
  assumes "x * (1 - unit_roundoff) ^ kd \<le> y * (1 + unit_roundoff) ^ kg"
    and "0 \<le> x" and "0 \<le> y" and "kd \<le> K" and "kg \<le> K"
  shows "x * (1 - unit_roundoff) ^ K \<le> y * (1 + unit_roundoff) ^ K"
proof -
  have "x * (1 - unit_roundoff) ^ K \<le> x * (1 - unit_roundoff) ^ kd"
    using assms(2,4) by (intro shrink_le)
  moreover have "y * (1 + unit_roundoff) ^ kg \<le> y * (1 + unit_roundoff) ^ K"
    using assms(3,5) by (intro grow_le)
  ultimately show ?thesis using assms(1) by linarith
qed

lemma round_pair: "(1 + unit_roundoff) * (1 - unit_roundoff) \<le> 1"
proof -
  have "0 \<le> unit_roundoff * unit_roundoff" by simp
  then show ?thesis by (simp add: algebra_simps)
qed

lemma pow_shrink_le_one: "(1 - unit_roundoff) ^ k \<le> 1"
  using unit_roundoff_bounds by (intro power_le_one) simp_all

lemma pow_grow_ge_one: "1 \<le> (1 + unit_roundoff) ^ k"
  using unit_roundoff_bounds by (intro one_le_power) simp

lemma shrink_self: "0 \<le> a \<Longrightarrow> a * (1 - unit_roundoff) ^ k \<le> a"
  using shrink_le [of a 0 k] by simp

lemma grow_self: "0 \<le> a \<Longrightarrow> a \<le> a * (1 + unit_roundoff) ^ k"
  using grow_le [of a 0 k] by simp

text \<open>The fill of a level: the shares bought against the notional spent.\<close>

lemma fill_shares_bounds:
  assumes "0 < p" "0 < r"
  shows "0 < fl (r / p)"
    and "r * (1 - unit_roundoff) \<le> p * fl (r / p)"
    and "p * fl (r / p) \<le> r * (1 + unit_roundoff)"
proof -
  have q: "0 < r / p" using assms by simp
  show "0 < fl (r / p)" using q by (rule fl_pos)
  have "p * (r / p * (1 - unit_roundoff)) \<le> p * fl (r / p)"
    using fl_lower [of "r / p"] q assms(1) by (intro mult_left_mono) simp_all
  then show "r * (1 - unit_roundoff) \<le> p * fl (r / p)" using assms(1) by simp
  have "p * fl (r / p) \<le> p * (r / p * (1 + unit_roundoff))"
    using fl_upper [of "r / p"] q assms(1) by (intro mult_left_mono) simp_all
  then show "p * fl (r / p) \<le> r * (1 + unit_roundoff)" using assms(1) by simp
qed

lemma walk_fl_positive:
  assumes "\<forall>l\<in>set levels. 0 < price l \<and> 0 \<le> size_lvl l"
    and "0 < remaining_notional st" and "0 \<le> total_cost st" and "0 \<le> total_shares st"
    and "walk_levels_fl levels st = Inr t" and "remaining_notional t \<le> 0"
  shows "0 < total_cost t" and "0 < total_shares t"
proof -
  note u = unit_roundoff_bounds
  from walk_fl_success [OF assms]
  obtain X Y where xy: "0 < X" "0 < Y"
    "(total_cost st + X) * (1 - unit_roundoff) ^ length levels \<le> total_cost t"
    "(total_shares st + Y) * (1 - unit_roundoff) ^ length levels \<le> total_shares t"
    by blast
  have "0 < (total_cost st + X) * (1 - unit_roundoff) ^ length levels"
    using xy(1) assms(3) u by (intro mult_pos_pos) simp_all
  then show "0 < total_cost t" using xy(3) by linarith
  have "0 < (total_shares st + Y) * (1 - unit_roundoff) ^ length levels"
    using xy(2) assms(4) u by (intro mult_pos_pos) simp_all
  then show "0 < total_shares t" using xy(4) by linarith
qed

text \<open>The invariant of the common prefix of two walks is kept by consuming a level.\<close>

lemma buy_invariant_step:
  fixes C S p z n' :: real
  assumes "0 \<le> C" "0 \<le> S" "0 < p" "0 \<le> z" "0 < n'"
    and "n' \<le> p * z * (1 + unit_roundoff)"
    and "C * (1 - unit_roundoff) ^ Suc j \<le> p * S * (1 + unit_roundoff) ^ j"
  shows "fl (C + n') * (1 - unit_roundoff) ^ Suc (Suc j)
           \<le> p * fl (S + z) * (1 + unit_roundoff) ^ Suc j"
proof -
  let ?d = "1 - unit_roundoff" and ?g = "1 + unit_roundoff"
  note u = unit_roundoff_bounds
  have d: "0 < ?d" "?d \<le> 1" and g: "1 \<le> ?g" "0 < ?g" using u by simp_all
  have pz: "0 \<le> p * z" using assms(3,4) by simp
  have "n' * ?d ^ Suc j = (n' * ?d) * ?d ^ j" by simp
  also have "\<dots> \<le> (n' * ?d) * 1"
    using assms(5) d pow_shrink_le_one [of j] by (intro mult_left_mono) simp_all
  also have "\<dots> \<le> p * z * ?g * ?d" using assms(6) d by (simp add: mult_right_mono)
  also have "\<dots> = p * z * (?g * ?d)" by simp
  also have "\<dots> \<le> p * z * 1" using pz round_pair by (intro mult_left_mono)
  also have "\<dots> \<le> p * z * ?g ^ j" using pz pow_grow_ge_one [of j] by (intro mult_left_mono)
  finally have i2: "n' * ?d ^ Suc j \<le> p * z * ?g ^ j" .
  have i3: "(C + n') * ?d ^ Suc j \<le> p * (S + z) * ?g ^ j"
    using assms(7) i2 by (simp add: distrib_left distrib_right)
  have c: "fl (C + n') \<le> (C + n') * ?g" using assms(1,5) by (intro fl_upper) simp
  have s: "(S + z) * ?d \<le> fl (S + z)" using assms(2,4) by (intro fl_lower) simp
  have "fl (C + n') * ?d ^ Suc (Suc j) \<le> (C + n') * ?g * ?d ^ Suc (Suc j)"
    using c d by (intro mult_right_mono) simp_all
  also have "\<dots> = (?g * ?d) * ((C + n') * ?d ^ Suc j)" by simp
  also have "\<dots> \<le> (?g * ?d) * (p * (S + z) * ?g ^ j)"
    using i3 d g by (intro mult_left_mono) simp_all
  also have "\<dots> = (p * ?g ^ Suc j) * ((S + z) * ?d)" by simp
  also have "\<dots> \<le> (p * ?g ^ Suc j) * fl (S + z)"
    using s assms(3) g by (intro mult_left_mono) simp_all
  finally show ?thesis by (simp add: mult_ac)
qed

lemma buy_ratio_fl:
  assumes "sorted (map price levels)"
    and "\<forall>l\<in>set levels. 0 < price l \<and> 0 \<le> size_lvl l"
    and "total_cost st2 = total_cost st1" and "total_shares st2 = total_shares st1"
    and "0 \<le> total_cost st1" and "0 \<le> total_shares st1"
    and "0 < remaining_notional st1" and "remaining_notional st1 \<le> remaining_notional st2"
    and "\<forall>l\<in>set levels. total_cost st1 * (1 - unit_roundoff) ^ Suc j
            \<le> price l * total_shares st1 * (1 + unit_roundoff) ^ j"
    and "walk_levels_fl levels st1 = Inr t1" and "walk_levels_fl levels st2 = Inr t2"
    and "remaining_notional t1 \<le> 0" and "remaining_notional t2 \<le> 0"
  shows "total_cost t1 * total_shares t2 * (1 - unit_roundoff) ^ (j + 2 * length levels + 3)
           \<le> total_cost t2 * total_shares t1 * (1 + unit_roundoff) ^ (j + 2 * length levels + 3)"
  using assms
proof (induction levels arbitrary: st1 st2 j)
  case Nil
  then show ?case by simp
next
  case (Cons level rest)
  let ?u = unit_roundoff
  let ?d = "1 - ?u" and ?g = "1 + ?u"
  let ?p = "price level" and ?z = "size_lvl level" and ?n = "level_notional_fl level"
  let ?C = "total_cost st1" and ?S = "total_shares st1"
  let ?ra = "remaining_notional st1" and ?rb = "remaining_notional st2"
  let ?K = "j + 2 * length (level # rest) + 3"
  note u = unit_roundoff_bounds
  have d: "0 < ?d" "?d \<le> 1" and g: "1 \<le> ?g" "0 < ?g" using u by simp_all
  have okl: "\<forall>l\<in>set (level # rest). 0 < price l \<and> 0 \<le> size_lvl l" by fact
  have p: "0 < ?p" and z: "0 \<le> ?z" using okl by simp_all
  have rest: "\<forall>l\<in>set rest. 0 < price l \<and> 0 \<le> size_lvl l" using okl by simp
  have srt: "sorted (map price rest)" using Cons.prems(1) by simp
  have above: "\<forall>l\<in>set rest. ?p \<le> price l" using Cons.prems(1) by simp
  have eqC: "total_cost st2 = ?C" and eqS: "total_shares st2 = ?S" by fact+
  have C: "0 \<le> ?C" and S: "0 \<le> ?S" by fact+
  have ra: "0 < ?ra" and rab: "?ra \<le> ?rb" by fact+
  have rb: "0 < ?rb" using ra rab by linarith
  have inv: "\<forall>l\<in>set (level # rest). ?C * ?d ^ Suc j \<le> price l * ?S * ?g ^ j" by fact
  have invp: "?C * ?d ^ Suc j \<le> ?p * ?S * ?g ^ j" using inv by simp
  have w1: "walk_levels_fl (level # rest) st1 = Inr t1"
    and w2: "walk_levels_fl (level # rest) st2 = Inr t2" by fact+
  have f1: "remaining_notional t1 \<le> 0" and f2: "remaining_notional t2 \<le> 0" by fact+
  have C2: "0 \<le> total_cost st2" and S2: "0 \<le> total_shares st2" using C S eqC eqS by simp_all
  have pos1: "0 < total_cost t1" "0 < total_shares t1"
    using walk_fl_positive [OF okl ra C S w1 f1] by simp_all
  have pos2: "0 < total_cost t2" "0 < total_shares t2"
    using walk_fl_positive [OF okl rb C2 S2 w2 f2] by simp_all
  have x0: "0 \<le> total_cost t1 * total_shares t2" using pos1 pos2 by simp
  have y0: "0 \<le> total_cost t2 * total_shares t1" using pos1 pos2 by simp
  consider (skip) "?n \<le> 0"
    | (both_take) "0 < ?n" "?n < ?ra"
    | (both_fill) "0 < ?n" "?ra \<le> ?n" "?rb \<le> ?n"
    | (split) "0 < ?n" "?ra \<le> ?n" "?n < ?rb"
    using rab by linarith
  then show ?case
  proof cases
    case skip
    have w1': "walk_levels_fl rest st1 = Inr t1" and w2': "walk_levels_fl rest st2 = Inr t2"
      using skip w1 w2 by simp_all
    have inv': "\<forall>l\<in>set rest. ?C * ?d ^ Suc j \<le> price l * ?S * ?g ^ j" using inv by simp
    have "total_cost t1 * total_shares t2 * ?d ^ (j + 2 * length rest + 3)
           \<le> total_cost t2 * total_shares t1 * ?g ^ (j + 2 * length rest + 3)"
      by (rule Cons.IH [OF srt rest eqC eqS C S ra rab inv' w1' w2' f1 f2])
    then show ?thesis using x0 y0 by (rule tolerance_weaken) simp_all
  next
    case both_take
    let ?s1 = "\<lparr>remaining_notional = fl (?ra - ?n), total_cost = fl (?C + ?n),
          total_shares = fl (?S + ?z)\<rparr>"
    let ?s2 = "\<lparr>remaining_notional = fl (?rb - ?n), total_cost = fl (?C + ?n),
          total_shares = fl (?S + ?z)\<rparr>"
    have nb: "?n < ?rb" using both_take(2) rab by linarith
    have w1': "walk_levels_fl rest ?s1 = Inr t1"
      using walk_fl_Cons_take [OF both_take, of rest] w1 by simp
    have w2': "walk_levels_fl rest ?s2 = Inr t2"
      using walk_fl_Cons_take [OF both_take(1) nb, of rest] w2 by (simp add: eqC eqS)
    have n_hi: "?n \<le> ?p * ?z * ?g" using level_notional_fl_bounds(2) [OF p z] .
    have a1: "total_cost ?s2 = total_cost ?s1" and a2: "total_shares ?s2 = total_shares ?s1"
      by simp_all
    have a3: "0 \<le> total_cost ?s1" using C both_take(1) by (simp add: fl_nonneg)
    have a4: "0 \<le> total_shares ?s1" using S z by (simp add: fl_nonneg)
    have a5: "0 < remaining_notional ?s1" using both_take(2) by (simp add: fl_pos)
    have a6: "remaining_notional ?s1 \<le> remaining_notional ?s2"
      using rab by (simp add: fl_mono)
    have step: "fl (?C + ?n) * ?d ^ Suc (Suc j) \<le> ?p * fl (?S + ?z) * ?g ^ Suc j"
      using C S p z both_take(1) n_hi invp by (rule buy_invariant_step)
    have a7: "\<forall>l\<in>set rest. total_cost ?s1 * ?d ^ Suc (Suc j)
        \<le> price l * total_shares ?s1 * ?g ^ Suc j"
    proof
      fix l assume l: "l \<in> set rest"
      have "0 \<le> fl (?S + ?z) * ?g ^ Suc j" using a4 g by simp
      then have "?p * (fl (?S + ?z) * ?g ^ Suc j) \<le> price l * (fl (?S + ?z) * ?g ^ Suc j)"
        using above l by (intro mult_right_mono) simp_all
      then show "total_cost ?s1 * ?d ^ Suc (Suc j) \<le> price l * total_shares ?s1 * ?g ^ Suc j"
        using step by (simp add: mult.assoc)
    qed
    have "total_cost t1 * total_shares t2 * ?d ^ (Suc j + 2 * length rest + 3)
           \<le> total_cost t2 * total_shares t1 * ?g ^ (Suc j + 2 * length rest + 3)"
      by (rule Cons.IH [OF srt rest a1 a2 a3 a4 a5 a6 a7 w1' w2' f1 f2])
    then show ?thesis using x0 y0 by (rule tolerance_weaken) simp_all
  next
    case both_fill
    let ?fa = "fl (?ra / ?p)" and ?fb = "fl (?rb / ?p)"
    have t1: "total_cost t1 = fl (?C + ?ra)" "total_shares t1 = fl (?S + ?fa)"
      using walk_fl_Cons_fill [OF both_fill(1,2), of rest] w1 by auto
    have t2: "total_cost t2 = fl (?C + ?rb)" "total_shares t2 = fl (?S + ?fb)"
      using walk_fl_Cons_fill [OF both_fill(1,3), of rest] w2 by (auto simp: eqC eqS)
    note fa = fill_shares_bounds [OF p ra]
    note fb = fill_shares_bounds [OF p rb]
    have fab: "?fa \<le> ?fb" using rab p by (intro fl_mono divide_right_mono) simp_all
    have h1: "?d ^ Suc j * ?C \<le> (?p * ?g ^ j) * ?S" using invp by (simp add: mult_ac)
    have h2: "?d ^ Suc j * ?ra \<le> (?p * ?g ^ j) * ?fa"
    proof -
      have "?d ^ Suc j * ?ra = (?ra * ?d) * ?d ^ j" by simp
      also have "\<dots> \<le> ?ra * ?d" using ra d by (intro shrink_self) simp
      also have "\<dots> \<le> ?p * ?fa" using fa(2) by simp
      also have "\<dots> \<le> (?p * ?fa) * ?g ^ j" using p fa(1) by (intro grow_self) simp
      finally show ?thesis by (simp add: mult_ac)
    qed
    have h3: "(?p * ?g ^ j) * ?fb \<le> ?g ^ Suc j * ?rb"
    proof -
      have "(?p * ?fb) * ?g ^ j \<le> (?rb * ?g) * ?g ^ j"
        using fb(3) g by (intro mult_right_mono) simp_all
      then show ?thesis by (simp add: mult_ac)
    qed
    have h4: "?d ^ Suc j \<le> ?g ^ Suc j"
      using pow_shrink_le_one [of "Suc j"] pow_grow_ge_one [of "Suc j"] by linarith
    have avg: "?d ^ Suc j * ((?C + ?ra) * (?S + ?fb)) \<le> ?g ^ Suc j * ((?C + ?rb) * (?S + ?fa))"
      using C S _ fab h1 h2 h3 h4 by (rule avg_up) (use fa(1) in simp)
    have b1: "total_cost t1 \<le> ?g * (?C + ?ra)"
      using fl_upper [of "?C + ?ra"] C ra by (simp add: t1 mult.commute)
    have b2: "total_shares t2 \<le> ?g * (?S + ?fb)"
      using fl_upper [of "?S + ?fb"] S fb(1) by (simp add: t2 mult.commute)
    have b3: "(?C + ?rb) * ?d \<le> total_cost t2"
      using fl_lower [of "?C + ?rb"] C rb by (simp add: t2)
    have b4: "(?S + ?fa) * ?d \<le> total_shares t1"
      using fl_lower [of "?S + ?fa"] S fa(1) by (simp add: t1)
    have "total_cost t1 * total_shares t2 * (?d ^ Suc j * ?d * ?d)
        \<le> total_cost t2 * total_shares t1 * (?g ^ Suc j * ?g * ?g)"
    proof (rule combine_bounds [OF _ _ _ _ _ _ _ _ _ _ b1 b2 b3 b4 avg])
      show "0 \<le> total_cost t1" "0 \<le> total_shares t2" using pos1 pos2 by simp_all
      show "0 \<le> ?C + ?rb" "0 \<le> ?S + ?fa" using C S rb fa(1) by simp_all
      show "0 \<le> ?g" "0 \<le> ?g" "0 \<le> ?d" "0 \<le> ?d" using d g by simp_all
      show "0 \<le> ?d ^ Suc j" "0 \<le> ?g ^ Suc j" using d g by simp_all
    qed
    then have "total_cost t1 * total_shares t2 * ?d ^ (j + 3)
        \<le> total_cost t2 * total_shares t1 * ?g ^ (j + 3)"
      by (simp add: power_add power3_eq_cube mult.assoc mult.left_commute)
    then show ?thesis using x0 y0 by (rule tolerance_weaken) simp_all
  next
    case split
    let ?fa = "fl (?ra / ?p)"
    let ?m = "length rest"
    let ?s2 = "\<lparr>remaining_notional = fl (?rb - ?n), total_cost = fl (?C + ?n),
          total_shares = fl (?S + ?z)\<rparr>"
    have t1: "total_cost t1 = fl (?C + ?ra)" "total_shares t1 = fl (?S + ?fa)"
      using walk_fl_Cons_fill [OF split(1,2), of rest] w1 by auto
    have w2': "walk_levels_fl rest ?s2 = Inr t2"
      using walk_fl_Cons_take [OF split(1,3), of rest] w2 by (simp add: eqC eqS)
    note fa = fill_shares_bounds [OF p ra]
    have n_lo: "?p * ?z * ?d \<le> ?n" and n_hi: "?n \<le> ?p * ?z * ?g"
      using level_notional_fl_bounds [OF p z] by simp_all
    have q1: "0 < remaining_notional ?s2" using split(3) by (simp add: fl_pos)
    have q2: "0 \<le> total_cost ?s2" using C split(1) by (simp add: fl_nonneg)
    have q3: "0 \<le> total_shares ?s2" using S z by (simp add: fl_nonneg)
    from walk_fl_success [OF rest q1 q2 q3 w2' f2]
    obtain X Y where xy: "0 < X" "0 < Y"
      "(fl (?C + ?n) + X) * ?d ^ ?m \<le> total_cost t2"
      "total_shares t2 \<le> (fl (?S + ?z) + Y) * ?g ^ ?m"
      "\<forall>lo. (\<forall>l\<in>set (levels_used_fl rest (fl (?rb - ?n))). lo \<le> price l)
          \<longrightarrow> lo * ?d * Y \<le> X"
      by (simp del: walk_levels_fl.simps levels_used_fl.simps) blast
    have "\<forall>l\<in>set (levels_used_fl rest (fl (?rb - ?n))). ?p \<le> price l"
      using above levels_used_fl_subset [of rest "fl (?rb - ?n)"] by blast
    with xy(5) have lo': "?p * ?d * Y \<le> X" by blast
    let ?X = "?n + X" and ?Y = "?z + Y"
    have e3: "(?C + ?X) * ?d ^ Suc ?m \<le> total_cost t2"
      using acc_lower [of "?C + ?n" X ?m "total_cost t2"] C split(1) xy(1,3)
      by (simp add: add.assoc)
    have e4: "total_shares t2 \<le> (?S + ?Y) * ?g ^ Suc ?m"
      using acc_upper [of "?S + ?z" Y "total_shares t2" ?m] S z xy(2,4)
      by (simp add: add.assoc)
    have lo: "?p * ?d * ?Y \<le> ?X" using n_lo lo' by (simp add: distrib_left mult_ac)
    let ?Yg = "?Y * (?g * ?g)"
    have Y0: "0 < ?Y" using z xy(2) by simp
    have YYg: "?Y \<le> ?Yg"
    proof -
      have "1 * 1 \<le> ?g * ?g" using g by (intro mult_mono) simp_all
      then have "1 \<le> ?g * ?g" by simp
      then show ?thesis using Y0 by (simp add: mult_le_cancel_left1)
    qed
    have faY: "?fa \<le> ?Yg"
    proof -
      have "?p * ?fa \<le> ?ra * ?g" by (rule fa(3))
      also have "\<dots> \<le> ?n * ?g" using split(2) g by (intro mult_right_mono) simp_all
      also have "\<dots> \<le> ?p * ?z * ?g * ?g" using n_hi g by (intro mult_right_mono) simp_all
      finally have "?p * ?fa \<le> ?p * (?z * (?g * ?g))" by (simp add: mult.assoc)
      then have "?fa \<le> ?z * (?g * ?g)" using p by simp
      moreover have "?z * (?g * ?g) \<le> ?Y * (?g * ?g)"
        using xy(2) g by (intro mult_right_mono) simp_all
      ultimately show ?thesis by linarith
    qed
    have h1: "?d ^ Suc (Suc j) * ?C \<le> (?p * ?g ^ j * ?d) * ?S"
    proof -
      have "?d * (?C * ?d ^ Suc j) \<le> ?d * (?p * ?S * ?g ^ j)"
        using invp d by (intro mult_left_mono) simp_all
      then show ?thesis by (simp add: mult_ac)
    qed
    have h2: "?d ^ Suc (Suc j) * ?ra \<le> (?p * ?g ^ j * ?d) * ?fa"
    proof -
      have "?d ^ Suc j * ?ra = (?ra * ?d) * ?d ^ j" by simp
      also have "\<dots> \<le> ?ra * ?d" using ra d by (intro shrink_self) simp
      also have "\<dots> \<le> ?p * ?fa" using fa(2) by simp
      also have "\<dots> \<le> (?p * ?fa) * ?g ^ j" using p fa(1) by (intro grow_self) simp
      finally have "?d * (?d ^ Suc j * ?ra) \<le> ?d * ((?p * ?fa) * ?g ^ j)"
        using d by (intro mult_left_mono) simp_all
      then show ?thesis by (simp add: mult_ac)
    qed
    have h3: "(?p * ?g ^ j * ?d) * ?Yg \<le> ?g ^ Suc (Suc j) * ?X"
    proof -
      have "(?g ^ j * (?g * ?g)) * (?p * ?d * ?Y) \<le> (?g ^ j * (?g * ?g)) * ?X"
        using lo g by (intro mult_left_mono) simp_all
      then show ?thesis by (simp add: mult_ac)
    qed
    have h4: "?d ^ Suc (Suc j) \<le> ?g ^ Suc (Suc j)"
      using pow_shrink_le_one [of "Suc (Suc j)"] pow_grow_ge_one [of "Suc (Suc j)"] by linarith
    have avg: "?d ^ Suc (Suc j) * ((?C + ?ra) * (?S + ?Yg))
        \<le> ?g ^ Suc (Suc j) * ((?C + ?X) * (?S + ?fa))"
      using C S _ faY h1 h2 h3 h4 by (rule avg_up) (use fa(1) in simp)
    have b1: "total_cost t1 \<le> ?g * (?C + ?ra)"
      using fl_upper [of "?C + ?ra"] C ra by (simp add: t1 mult.commute)
    have b2: "total_shares t2 \<le> ?g ^ Suc ?m * (?S + ?Yg)"
    proof -
      have "(?S + ?Y) * ?g ^ Suc ?m \<le> (?S + ?Yg) * ?g ^ Suc ?m"
        using YYg g by (intro mult_right_mono) simp_all
      then show ?thesis using e4 by (simp add: mult.commute)
    qed
    have b4: "(?S + ?fa) * ?d \<le> total_shares t1"
      using fl_lower [of "?S + ?fa"] S fa(1) by (simp add: t1)
    have "total_cost t1 * total_shares t2 * (?d ^ Suc (Suc j) * ?d ^ Suc ?m * ?d)
        \<le> total_cost t2 * total_shares t1 * (?g ^ Suc (Suc j) * ?g * ?g ^ Suc ?m)"
    proof (rule combine_bounds [OF _ _ _ _ _ _ _ _ _ _ b1 b2 e3 b4 avg])
      show "0 \<le> total_cost t1" "0 \<le> total_shares t2" using pos1 pos2 by simp_all
      show "0 \<le> ?C + ?X" "0 \<le> ?S + ?fa" using C S split(1) xy(1) fa(1) by simp_all
      show "0 \<le> ?g" "0 \<le> ?g ^ Suc ?m" "0 \<le> ?d ^ Suc ?m" "0 \<le> ?d" using d g by simp_all
      show "0 \<le> ?d ^ Suc (Suc j)" "0 \<le> ?g ^ Suc (Suc j)" using d g by simp_all
    qed
    moreover have "?d ^ Suc (Suc j) * ?d ^ Suc ?m * ?d = ?d ^ (j + ?m + 4)"
    proof -
      have "j + ?m + 4 = Suc (Suc j) + Suc ?m + 1" by simp
      then show ?thesis by (simp only: power_add power_one_right)
    qed
    moreover have "?g ^ Suc (Suc j) * ?g * ?g ^ Suc ?m = ?g ^ (j + ?m + 4)"
    proof -
      have "j + ?m + 4 = Suc (Suc j) + 1 + Suc ?m" by simp
      then show ?thesis by (simp only: power_add power_one_right)
    qed
    ultimately have "total_cost t1 * total_shares t2 * ?d ^ (j + ?m + 4)
        \<le> total_cost t2 * total_shares t1 * ?g ^ (j + ?m + 4)"
      by simp
    then show ?thesis using x0 y0 by (rule tolerance_weaken) simp_all
  qed
qed

lemma sell_invariant_step:
  fixes C S p z n' :: real
  assumes "0 \<le> C" "0 \<le> S" "0 < p" "0 \<le> z" "0 < n'"
    and "p * z * (1 - unit_roundoff) \<le> n'"
    and "p * S * (1 - unit_roundoff) ^ Suc j \<le> C * (1 + unit_roundoff) ^ j"
  shows "p * fl (S + z) * (1 - unit_roundoff) ^ Suc (Suc j)
           \<le> fl (C + n') * (1 + unit_roundoff) ^ Suc j"
proof -
  let ?d = "1 - unit_roundoff" and ?g = "1 + unit_roundoff"
  note u = unit_roundoff_bounds
  have d: "0 < ?d" "?d \<le> 1" and g: "1 \<le> ?g" "0 < ?g" using u by simp_all
  have pz: "0 \<le> p * z * ?d" using assms(3,4) d by simp
  have "p * z * ?d ^ Suc j = (p * z * ?d) * ?d ^ j" by simp
  also have "\<dots> \<le> p * z * ?d" using pz by (rule shrink_self)
  also have "\<dots> \<le> n'" by (rule assms(6))
  also have "\<dots> \<le> n' * ?g ^ j" using assms(5) by (intro grow_self) simp
  finally have i2: "p * z * ?d ^ Suc j \<le> n' * ?g ^ j" .
  have i3: "p * (S + z) * ?d ^ Suc j \<le> (C + n') * ?g ^ j"
    using assms(7) i2 by (simp add: distrib_left distrib_right)
  have s: "fl (S + z) \<le> (S + z) * ?g" using assms(2,4) by (intro fl_upper) simp
  have c: "(C + n') * ?d \<le> fl (C + n')" using assms(1,5) by (intro fl_lower) simp
  have "p * fl (S + z) * ?d ^ Suc (Suc j) \<le> p * ((S + z) * ?g) * ?d ^ Suc (Suc j)"
    using s assms(3) d by (intro mult_right_mono mult_left_mono) simp_all
  also have "\<dots> = (?g * ?d) * (p * (S + z) * ?d ^ Suc j)" by simp
  also have "\<dots> \<le> (?g * ?d) * ((C + n') * ?g ^ j)"
    using i3 d g by (intro mult_left_mono) simp_all
  also have "\<dots> = ?g ^ Suc j * ((C + n') * ?d)" by simp
  also have "\<dots> \<le> ?g ^ Suc j * fl (C + n')"
    using c g by (intro mult_left_mono) simp_all
  finally show ?thesis by (simp add: mult_ac)
qed

lemma sell_ratio_fl:
  assumes "sorted_wrt (\<lambda>a b. b \<le> a) (map price levels)"
    and "\<forall>l\<in>set levels. 0 < price l \<and> 0 \<le> size_lvl l"
    and "total_cost st2 = total_cost st1" and "total_shares st2 = total_shares st1"
    and "0 \<le> total_cost st1" and "0 \<le> total_shares st1"
    and "0 < remaining_notional st1" and "remaining_notional st1 \<le> remaining_notional st2"
    and "\<forall>l\<in>set levels. price l * total_shares st1 * (1 - unit_roundoff) ^ Suc j
            \<le> total_cost st1 * (1 + unit_roundoff) ^ j"
    and "walk_levels_fl levels st1 = Inr t1" and "walk_levels_fl levels st2 = Inr t2"
    and "remaining_notional t1 \<le> 0" and "remaining_notional t2 \<le> 0"
  shows "total_cost t2 * total_shares t1 * (1 - unit_roundoff) ^ (j + 2 * length levels + 3)
           \<le> total_cost t1 * total_shares t2 * (1 + unit_roundoff) ^ (j + 2 * length levels + 3)"
  using assms
proof (induction levels arbitrary: st1 st2 j)
  case Nil
  then show ?case by simp
next
  case (Cons level rest)
  let ?u = unit_roundoff
  let ?d = "1 - ?u" and ?g = "1 + ?u"
  let ?p = "price level" and ?z = "size_lvl level" and ?n = "level_notional_fl level"
  let ?C = "total_cost st1" and ?S = "total_shares st1"
  let ?ra = "remaining_notional st1" and ?rb = "remaining_notional st2"
  note u = unit_roundoff_bounds
  have d: "0 < ?d" "?d \<le> 1" and g: "1 \<le> ?g" "0 < ?g" using u by simp_all
  have okl: "\<forall>l\<in>set (level # rest). 0 < price l \<and> 0 \<le> size_lvl l" by fact
  have p: "0 < ?p" and z: "0 \<le> ?z" using okl by simp_all
  have rest: "\<forall>l\<in>set rest. 0 < price l \<and> 0 \<le> size_lvl l" using okl by simp
  have srt: "sorted_wrt (\<lambda>a b. b \<le> a) (map price rest)" using Cons.prems(1) by simp
  have below: "\<forall>l\<in>set rest. price l \<le> ?p" using Cons.prems(1) by simp
  have eqC: "total_cost st2 = ?C" and eqS: "total_shares st2 = ?S" by fact+
  have C: "0 \<le> ?C" and S: "0 \<le> ?S" by fact+
  have ra: "0 < ?ra" and rab: "?ra \<le> ?rb" by fact+
  have rb: "0 < ?rb" using ra rab by linarith
  have inv: "\<forall>l\<in>set (level # rest). price l * ?S * ?d ^ Suc j \<le> ?C * ?g ^ j" by fact
  have invp: "?p * ?S * ?d ^ Suc j \<le> ?C * ?g ^ j" using inv by simp
  have w1: "walk_levels_fl (level # rest) st1 = Inr t1"
    and w2: "walk_levels_fl (level # rest) st2 = Inr t2" by fact+
  have f1: "remaining_notional t1 \<le> 0" and f2: "remaining_notional t2 \<le> 0" by fact+
  have C2: "0 \<le> total_cost st2" and S2: "0 \<le> total_shares st2" using C S eqC eqS by simp_all
  have pos1: "0 < total_cost t1" "0 < total_shares t1"
    using walk_fl_positive [OF okl ra C S w1 f1] by simp_all
  have pos2: "0 < total_cost t2" "0 < total_shares t2"
    using walk_fl_positive [OF okl rb C2 S2 w2 f2] by simp_all
  have x0: "0 \<le> total_cost t2 * total_shares t1" using pos1 pos2 by simp
  have y0: "0 \<le> total_cost t1 * total_shares t2" using pos1 pos2 by simp
  consider (skip) "?n \<le> 0"
    | (both_take) "0 < ?n" "?n < ?ra"
    | (both_fill) "0 < ?n" "?ra \<le> ?n" "?rb \<le> ?n"
    | (split) "0 < ?n" "?ra \<le> ?n" "?n < ?rb"
    using rab by linarith
  then show ?case
  proof cases
    case skip
    have w1': "walk_levels_fl rest st1 = Inr t1" and w2': "walk_levels_fl rest st2 = Inr t2"
      using skip w1 w2 by simp_all
    have inv': "\<forall>l\<in>set rest. price l * ?S * ?d ^ Suc j \<le> ?C * ?g ^ j" using inv by simp
    have "total_cost t2 * total_shares t1 * ?d ^ (j + 2 * length rest + 3)
           \<le> total_cost t1 * total_shares t2 * ?g ^ (j + 2 * length rest + 3)"
      by (rule Cons.IH [OF srt rest eqC eqS C S ra rab inv' w1' w2' f1 f2])
    then show ?thesis using x0 y0 by (rule tolerance_weaken) simp_all
  next
    case both_take
    let ?s1 = "\<lparr>remaining_notional = fl (?ra - ?n), total_cost = fl (?C + ?n),
          total_shares = fl (?S + ?z)\<rparr>"
    let ?s2 = "\<lparr>remaining_notional = fl (?rb - ?n), total_cost = fl (?C + ?n),
          total_shares = fl (?S + ?z)\<rparr>"
    have nb: "?n < ?rb" using both_take(2) rab by linarith
    have w1': "walk_levels_fl rest ?s1 = Inr t1"
      using walk_fl_Cons_take [OF both_take, of rest] w1 by simp
    have w2': "walk_levels_fl rest ?s2 = Inr t2"
      using walk_fl_Cons_take [OF both_take(1) nb, of rest] w2 by (simp add: eqC eqS)
    have n_lo: "?p * ?z * ?d \<le> ?n" using level_notional_fl_bounds(1) [OF p z] .
    have a1: "total_cost ?s2 = total_cost ?s1" and a2: "total_shares ?s2 = total_shares ?s1"
      by simp_all
    have a3: "0 \<le> total_cost ?s1" using C both_take(1) by (simp add: fl_nonneg)
    have a4: "0 \<le> total_shares ?s1" using S z by (simp add: fl_nonneg)
    have a5: "0 < remaining_notional ?s1" using both_take(2) by (simp add: fl_pos)
    have a6: "remaining_notional ?s1 \<le> remaining_notional ?s2"
      using rab by (simp add: fl_mono)
    have step: "?p * fl (?S + ?z) * ?d ^ Suc (Suc j) \<le> fl (?C + ?n) * ?g ^ Suc j"
      using C S p z both_take(1) n_lo invp by (rule sell_invariant_step)
    have a7: "\<forall>l\<in>set rest. price l * total_shares ?s1 * ?d ^ Suc (Suc j)
        \<le> total_cost ?s1 * ?g ^ Suc j"
    proof
      fix l assume l: "l \<in> set rest"
      have "0 \<le> fl (?S + ?z) * ?d ^ Suc (Suc j)" using a4 d by simp
      then have "price l * (fl (?S + ?z) * ?d ^ Suc (Suc j))
          \<le> ?p * (fl (?S + ?z) * ?d ^ Suc (Suc j))"
        using below l by (intro mult_right_mono) simp_all
      then show "price l * total_shares ?s1 * ?d ^ Suc (Suc j) \<le> total_cost ?s1 * ?g ^ Suc j"
        using step by (simp add: mult.assoc)
    qed
    have "total_cost t2 * total_shares t1 * ?d ^ (Suc j + 2 * length rest + 3)
           \<le> total_cost t1 * total_shares t2 * ?g ^ (Suc j + 2 * length rest + 3)"
      by (rule Cons.IH [OF srt rest a1 a2 a3 a4 a5 a6 a7 w1' w2' f1 f2])
    then show ?thesis using x0 y0 by (rule tolerance_weaken) simp_all
  next
    case both_fill
    let ?fa = "fl (?ra / ?p)" and ?fb = "fl (?rb / ?p)"
    have t1: "total_cost t1 = fl (?C + ?ra)" "total_shares t1 = fl (?S + ?fa)"
      using walk_fl_Cons_fill [OF both_fill(1,2), of rest] w1 by auto
    have t2: "total_cost t2 = fl (?C + ?rb)" "total_shares t2 = fl (?S + ?fb)"
      using walk_fl_Cons_fill [OF both_fill(1,3), of rest] w2 by (auto simp: eqC eqS)
    note fa = fill_shares_bounds [OF p ra]
    note fb = fill_shares_bounds [OF p rb]
    have fab: "?fa \<le> ?fb" using rab p by (intro fl_mono divide_right_mono) simp_all
    have h1: "(?p * ?d ^ Suc j) * ?S \<le> ?g ^ Suc j * ?C"
    proof -
      have "?C * ?g ^ j \<le> ?C * ?g ^ Suc j" using C by (rule grow_step)
      then have "?p * ?S * ?d ^ Suc j \<le> ?C * ?g ^ Suc j" using invp by linarith
      then show ?thesis by (simp add: mult_ac)
    qed
    have h2: "(?p * ?d ^ Suc j) * ?fa \<le> ?g ^ Suc j * ?ra"
    proof -
      have "(?p * ?fa) * ?d ^ Suc j \<le> ?p * ?fa" using p fa(1) by (intro shrink_self) simp
      also have "\<dots> \<le> ?ra * ?g" by (rule fa(3))
      also have "\<dots> \<le> (?ra * ?g) * ?g ^ j" using ra g by (intro grow_self) simp
      finally show ?thesis by (simp add: mult_ac)
    qed
    have h3: "?d ^ Suc (Suc j) * ?rb \<le> (?p * ?d ^ Suc j) * ?fb"
    proof -
      have "?d ^ Suc j * (?rb * ?d) \<le> ?d ^ Suc j * (?p * ?fb)"
        using fb(2) d by (intro mult_left_mono) simp_all
      then show ?thesis by (simp add: mult_ac)
    qed
    have h4: "?d ^ Suc (Suc j) \<le> ?g ^ Suc j"
      using pow_shrink_le_one [of "Suc (Suc j)"] pow_grow_ge_one [of "Suc j"] by linarith
    have avg: "?d ^ Suc (Suc j) * ((?C + ?rb) * (?S + ?fa)) \<le> ?g ^ Suc j * ((?C + ?ra) * (?S + ?fb))"
      using C S _ fab h1 h2 h3 h4 by (rule avg_down) (use fa(1) in simp)
    have b1: "total_cost t2 \<le> ?g * (?C + ?rb)"
      using fl_upper [of "?C + ?rb"] C rb by (simp add: t2 mult.commute)
    have b2: "total_shares t1 \<le> ?g * (?S + ?fa)"
      using fl_upper [of "?S + ?fa"] S fa(1) by (simp add: t1 mult.commute)
    have b3: "(?C + ?ra) * ?d \<le> total_cost t1"
      using fl_lower [of "?C + ?ra"] C ra by (simp add: t1)
    have b4: "(?S + ?fb) * ?d \<le> total_shares t2"
      using fl_lower [of "?S + ?fb"] S fb(1) by (simp add: t2)
    have "total_cost t2 * total_shares t1 * (?d ^ Suc (Suc j) * ?d * ?d)
        \<le> total_cost t1 * total_shares t2 * (?g ^ Suc j * ?g * ?g)"
    proof (rule combine_bounds [OF _ _ _ _ _ _ _ _ _ _ b1 b2 b3 b4 avg])
      show "0 \<le> total_cost t2" "0 \<le> total_shares t1" using pos1 pos2 by simp_all
      show "0 \<le> ?C + ?ra" "0 \<le> ?S + ?fb" using C S ra fb(1) by simp_all
      show "0 \<le> ?g" "0 \<le> ?g" "0 \<le> ?d" "0 \<le> ?d" using d g by simp_all
      show "0 \<le> ?d ^ Suc (Suc j)" "0 \<le> ?g ^ Suc j" using d g by simp_all
    qed
    moreover have "?d ^ Suc (Suc j) * ?d * ?d = ?d ^ (j + 4)"
    proof -
      have "j + 4 = Suc (Suc j) + 1 + 1" by simp
      then show ?thesis by (simp only: power_add power_one_right)
    qed
    moreover have "?g ^ Suc j * ?g * ?g = ?g ^ (j + 3)"
    proof -
      have "j + 3 = Suc j + 1 + 1" by simp
      then show ?thesis by (simp only: power_add power_one_right)
    qed
    ultimately have "total_cost t2 * total_shares t1 * ?d ^ (j + 4)
        \<le> total_cost t1 * total_shares t2 * ?g ^ (j + 3)"
      by simp
    then show ?thesis using x0 y0 by (rule tolerance_weaken) simp_all
  next
    case split
    let ?fa = "fl (?ra / ?p)"
    let ?m = "length rest"
    let ?s2 = "\<lparr>remaining_notional = fl (?rb - ?n), total_cost = fl (?C + ?n),
          total_shares = fl (?S + ?z)\<rparr>"
    have t1: "total_cost t1 = fl (?C + ?ra)" "total_shares t1 = fl (?S + ?fa)"
      using walk_fl_Cons_fill [OF split(1,2), of rest] w1 by auto
    have w2': "walk_levels_fl rest ?s2 = Inr t2"
      using walk_fl_Cons_take [OF split(1,3), of rest] w2 by (simp add: eqC eqS)
    note fa = fill_shares_bounds [OF p ra]
    have n_lo: "?p * ?z * ?d \<le> ?n" and n_hi: "?n \<le> ?p * ?z * ?g"
      using level_notional_fl_bounds [OF p z] by simp_all
    have q1: "0 < remaining_notional ?s2" using split(3) by (simp add: fl_pos)
    have q2: "0 \<le> total_cost ?s2" using C split(1) by (simp add: fl_nonneg)
    have q3: "0 \<le> total_shares ?s2" using S z by (simp add: fl_nonneg)
    from walk_fl_success [OF rest q1 q2 q3 w2' f2]
    obtain X Y where xy: "0 < X" "0 < Y"
      "total_cost t2 \<le> (fl (?C + ?n) + X) * ?g ^ ?m"
      "(fl (?S + ?z) + Y) * ?d ^ ?m \<le> total_shares t2"
      "\<forall>hi. (\<forall>l\<in>set (levels_used_fl rest (fl (?rb - ?n))). price l \<le> hi)
          \<longrightarrow> X * ?d \<le> hi * Y"
      by (simp del: walk_levels_fl.simps levels_used_fl.simps) blast
    have "\<forall>l\<in>set (levels_used_fl rest (fl (?rb - ?n))). price l \<le> ?p"
      using below levels_used_fl_subset [of rest "fl (?rb - ?n)"] by blast
    with xy(5) have hi': "X * ?d \<le> ?p * Y" by blast
    let ?X = "?n + X" and ?Y = "?z + Y"
    have e3: "total_cost t2 \<le> (?C + ?X) * ?g ^ Suc ?m"
      using acc_upper [of "?C + ?n" X "total_cost t2" ?m] C split(1) xy(1,3)
      by (simp add: add.assoc)
    have e4: "(?S + ?Y) * ?d ^ Suc ?m \<le> total_shares t2"
      using acc_lower [of "?S + ?z" Y ?m "total_shares t2"] S z xy(2,4)
      by (simp add: add.assoc)
    have nd: "?n * ?d \<le> ?p * ?z"
    proof -
      have "?n * ?d \<le> ?p * ?z * ?g * ?d" using n_hi d by (intro mult_right_mono) simp_all
      also have "\<dots> = (?p * ?z) * (?g * ?d)" by simp
      also have "\<dots> \<le> (?p * ?z) * 1" using p z round_pair by (intro mult_left_mono) simp_all
      finally show ?thesis by simp
    qed
    have hi: "?X * ?d \<le> ?p * ?Y" using nd hi' by (simp add: distrib_left distrib_right)
    let ?Yg = "?Y * (?g * ?g)"
    have Y0: "0 < ?Y" using z xy(2) by simp
    have gg: "1 \<le> ?g * ?g"
    proof -
      have "1 * 1 \<le> ?g * ?g" using g by (intro mult_mono) simp_all
      then show ?thesis by simp
    qed
    have YYg: "?Y \<le> ?Yg"
    proof -
      have "?Y * 1 \<le> ?Y * (?g * ?g)" using Y0 gg by (intro mult_left_mono) simp_all
      then show ?thesis by simp
    qed
    have faY: "?fa \<le> ?Yg"
    proof -
      have "?p * ?fa \<le> ?ra * ?g" by (rule fa(3))
      also have "\<dots> \<le> ?n * ?g" using split(2) g by (intro mult_right_mono) simp_all
      also have "\<dots> \<le> ?p * ?z * ?g * ?g" using n_hi g by (intro mult_right_mono) simp_all
      finally have "?p * ?fa \<le> ?p * (?z * (?g * ?g))" by (simp add: mult.assoc)
      then have "?fa \<le> ?z * (?g * ?g)" using p by simp
      moreover have "?z * (?g * ?g) \<le> ?Y * (?g * ?g)"
        using xy(2) g by (intro mult_right_mono) simp_all
      ultimately show ?thesis by linarith
    qed
    have h1: "(?p * ?d ^ Suc j) * ?S \<le> ?g ^ Suc j * ?C"
    proof -
      have "?C * ?g ^ j \<le> ?C * ?g ^ Suc j" using C by (rule grow_step)
      then have "?p * ?S * ?d ^ Suc j \<le> ?C * ?g ^ Suc j" using invp by linarith
      then show ?thesis by (simp add: mult_ac)
    qed
    have h2: "(?p * ?d ^ Suc j) * ?fa \<le> ?g ^ Suc j * ?ra"
    proof -
      have "(?p * ?fa) * ?d ^ Suc j \<le> ?p * ?fa" using p fa(1) by (intro shrink_self) simp
      also have "\<dots> \<le> ?ra * ?g" by (rule fa(3))
      also have "\<dots> \<le> (?ra * ?g) * ?g ^ j" using ra g by (intro grow_self) simp
      finally show ?thesis by (simp add: mult_ac)
    qed
    have h3: "?d ^ Suc (Suc j) * ?X \<le> (?p * ?d ^ Suc j) * ?Yg"
    proof -
      have "?X * ?d \<le> ?p * ?Y" by (rule hi)
      also have "\<dots> \<le> ?p * ?Yg" using YYg p by (intro mult_left_mono) simp_all
      finally have "?d ^ Suc j * (?X * ?d) \<le> ?d ^ Suc j * (?p * ?Yg)"
        using d by (intro mult_left_mono) simp_all
      then show ?thesis by (simp add: mult_ac)
    qed
    have h4: "?d ^ Suc (Suc j) \<le> ?g ^ Suc j"
      using pow_shrink_le_one [of "Suc (Suc j)"] pow_grow_ge_one [of "Suc j"] by linarith
    have avg0: "?d ^ Suc (Suc j) * ((?C + ?X) * (?S + ?fa))
        \<le> ?g ^ Suc j * ((?C + ?ra) * (?S + ?Yg))"
      using C S _ faY h1 h2 h3 h4 by (rule avg_down) (use fa(1) in simp)
    have sy: "?S + ?Yg \<le> (?g * ?g) * (?S + ?Y)"
    proof -
      have "1 * ?S \<le> (?g * ?g) * ?S" using S gg by (intro mult_right_mono) simp_all
      then show ?thesis by (simp add: distrib_left mult.commute)
    qed
    have cr: "0 \<le> ?C + ?ra" using C ra by simp
    have m1: "(?C + ?ra) * (?S + ?Yg) \<le> (?C + ?ra) * ((?g * ?g) * (?S + ?Y))"
      using sy cr by (rule mult_left_mono)
    have gj: "0 \<le> ?g ^ Suc j" using g by simp
    have m2: "?g ^ Suc j * ((?C + ?ra) * (?S + ?Yg))
        \<le> ?g ^ Suc j * ((?C + ?ra) * ((?g * ?g) * (?S + ?Y)))"
      using m1 gj by (rule mult_left_mono)
    have m3: "?g ^ Suc j * ((?C + ?ra) * ((?g * ?g) * (?S + ?Y)))
        = (?g ^ Suc j * (?g * ?g)) * ((?C + ?ra) * (?S + ?Y))"
      by (simp only: mult_ac)
    have avg: "?d ^ Suc (Suc j) * ((?C + ?X) * (?S + ?fa))
        \<le> (?g ^ Suc j * (?g * ?g)) * ((?C + ?ra) * (?S + ?Y))"
      using avg0 m2 unfolding m3 by linarith
    have b1: "total_cost t2 \<le> ?g ^ Suc ?m * (?C + ?X)" using e3 by (simp add: mult.commute)
    have b2: "total_shares t1 \<le> ?g * (?S + ?fa)"
      using fl_upper [of "?S + ?fa"] S fa(1) by (simp add: t1 mult.commute)
    have b3: "(?C + ?ra) * ?d \<le> total_cost t1"
      using fl_lower [of "?C + ?ra"] C ra by (simp add: t1)
    have "total_cost t2 * total_shares t1 * (?d ^ Suc (Suc j) * ?d * ?d ^ Suc ?m)
        \<le> total_cost t1 * total_shares t2 * ((?g ^ Suc j * (?g * ?g)) * ?g ^ Suc ?m * ?g)"
    proof (rule combine_bounds [OF _ _ _ _ _ _ _ _ _ _ b1 b2 b3 e4 avg])
      show "0 \<le> total_cost t2" "0 \<le> total_shares t1" using pos1 pos2 by simp_all
      show "0 \<le> ?C + ?ra" "0 \<le> ?S + ?Y" using C S ra Y0 by simp_all
      show "0 \<le> ?g ^ Suc ?m" "0 \<le> ?g" "0 \<le> ?d" "0 \<le> ?d ^ Suc ?m" using d g by simp_all
      show "0 \<le> ?d ^ Suc (Suc j)" "0 \<le> ?g ^ Suc j * (?g * ?g)" using d g by simp_all
    qed
    moreover have "?d ^ Suc (Suc j) * ?d * ?d ^ Suc ?m = ?d ^ (j + ?m + 4)"
    proof -
      have "j + ?m + 4 = Suc (Suc j) + 1 + Suc ?m" by simp
      then show ?thesis by (simp only: power_add power_one_right)
    qed
    moreover have "(?g ^ Suc j * (?g * ?g)) * ?g ^ Suc ?m * ?g = ?g ^ (j + ?m + 5)"
    proof -
      have "j + ?m + 5 = Suc j + (1 + 1) + Suc ?m + 1" by simp
      then show ?thesis by (simp only: power_add power_one_right)
    qed
    ultimately have "total_cost t2 * total_shares t1 * ?d ^ (j + ?m + 4)
        \<le> total_cost t1 * total_shares t2 * ?g ^ (j + ?m + 5)"
      by simp
    then show ?thesis using x0 y0 by (rule tolerance_weaken) simp_all
  qed
qed

lemma price_ratio_final:
  assumes "0 < C1" "0 < S1" "0 < C2" "0 < S2"
    and "C1 * S2 * (1 - unit_roundoff) ^ k \<le> C2 * S1 * (1 + unit_roundoff) ^ k"
  shows "fl (C1 / S1) \<le> fl (C2 / S2) * rounding_tolerance (Suc k)"
proof -
  let ?d = "1 - unit_roundoff" and ?g = "1 + unit_roundoff"
  let ?v1 = "fl (C1 / S1)" and ?v2 = "fl (C2 / S2)"
  note u = unit_roundoff_bounds
  have d: "0 < ?d" and g: "0 < ?g" using u by simp_all
  have q1: "0 \<le> C1 / S1" and q2: "0 \<le> C2 / S2" using assms(1-4) by simp_all
  have v1: "?v1 * S1 \<le> C1 * ?g"
  proof -
    have "?v1 * S1 \<le> C1 / S1 * ?g * S1"
      using fl_upper [OF q1] assms(2) by (intro mult_right_mono) simp_all
    then show ?thesis using assms(2) by simp
  qed
  have v2: "C2 * ?d \<le> ?v2 * S2"
  proof -
    have "C2 / S2 * ?d * S2 \<le> ?v2 * S2"
      using fl_lower [OF q2] assms(4) by (intro mult_right_mono) simp_all
    then show ?thesis using assms(4) by simp
  qed
  have s2d: "0 \<le> S2 * ?d ^ Suc k" using assms(4) d by simp
  have gd: "0 \<le> ?g * ?d" using d g by simp
  have gs: "0 \<le> ?g ^ Suc k * S1" using assms(2) g by simp
  have "(?v1 * S1) * (S2 * ?d ^ Suc k) \<le> (C1 * ?g) * (S2 * ?d ^ Suc k)"
    using v1 s2d by (rule mult_right_mono)
  also have "\<dots> = (?g * ?d) * (C1 * S2 * ?d ^ k)" by simp
  also have "\<dots> \<le> (?g * ?d) * (C2 * S1 * ?g ^ k)" using assms(5) gd by (rule mult_left_mono)
  also have "\<dots> = (?g ^ Suc k * S1) * (C2 * ?d)" by simp
  also have "\<dots> \<le> (?g ^ Suc k * S1) * (?v2 * S2)" using v2 gs by (rule mult_left_mono)
  finally have "(?v1 * ?d ^ Suc k) * (S1 * S2) \<le> (?v2 * ?g ^ Suc k) * (S1 * S2)"
    by (simp only: mult_ac)
  moreover have "0 < S1 * S2" using assms(2,4) by simp
  ultimately have "?v1 * ?d ^ Suc k \<le> ?v2 * ?g ^ Suc k"
    by (simp only: mult_le_cancel_right_pos)
  then show ?thesis by (rule tolerance_intro)
qed

lemma regime_levels_ok:
  assumes "\<forall>l\<in>A. 1 / 2 ^ 100 \<le> price l \<and> price l \<le> 1
             \<and> (size_lvl l = 0 \<or> 1 / 2 ^ 100 \<le> size_lvl l \<and> size_lvl l \<le> 2 ^ 100)"
  shows "\<forall>l\<in>A. 0 < price l \<and> 0 \<le> size_lvl l"
proof
  fix l assume "l \<in> A"
  with assms have a: "1 / 2 ^ 100 \<le> price l"
    "size_lvl l = 0 \<or> 1 / 2 ^ 100 \<le> size_lvl l \<and> size_lvl l \<le> 2 ^ 100" by blast+
  have "(0::real) < 1 / 2 ^ 100" by simp
  then show "0 < price l \<and> 0 \<le> size_lvl l" using a by linarith
qed

text \<open>The double-precision results on the single level (0.03, 1000).\<close>

lemma fl_0_03: "fl (3 / 100) = double_0_03"
  unfolding double_0_03_def
  by (subst fl_pos_eval [where e = "-6"]) (simp_all add: round_even_def Let_def)

lemma fl_double_0_03: "fl double_0_03 = double_0_03"
  unfolding double_0_03_def
  by (subst fl_pos_eval [where e = "-6"]) (simp_all add: round_even_def Let_def)

lemma ev_notional: "fl (double_0_03 * 1000) = 30"
  unfolding double_0_03_def
  by (subst fl_pos_eval [where e = 4]) (simp_all add: round_even_def Let_def)

lemma ev_fill5: "fl (5 / double_0_03) = 2932031007402667 / 2 ^ 44"
  unfolding double_0_03_def
  by (subst fl_pos_eval [where e = 7]) (simp_all add: round_even_def Let_def)

lemma ev_fill6: "fl (6 / double_0_03) = 200"
  unfolding double_0_03_def
  by (subst fl_pos_eval [where e = 7]) (simp_all add: round_even_def Let_def)

lemma ev_id5: "fl 5 = 5"
  by (subst fl_pos_eval [where e = 2]) (simp_all add: round_even_def Let_def)

lemma ev_id6: "fl 6 = 6"
  by (subst fl_pos_eval [where e = 2]) (simp_all add: round_even_def Let_def)

lemma ev_id200: "fl 200 = 200"
  by (subst fl_pos_eval [where e = 7]) (simp_all add: round_even_def Let_def)

lemma ev_idfs: "fl (2932031007402667 / 17592186044416) = 2932031007402667 / 17592186044416"
  by (subst fl_pos_eval [where e = 7]) (simp_all add: round_even_def Let_def)

lemma ev_price5:
  "fl (5 / (2932031007402667 / 17592186044416)) = 8646911284551351 / 288230376151711744"
  by (subst fl_pos_eval [where e = "-6"]) (simp_all add: round_even_def Let_def)

lemma ev_price6: "fl (6 / 200) = double_0_03"
  using fl_0_03 by simp

lemma level_notional_fl_0_03:
  "level_notional_fl \<lparr>price = double_0_03, size_lvl = 1000\<rparr> = 30"
  by (simp add: level_notional_fl_def ev_notional)

lemma double_0_03_nonzero: "double_0_03 \<noteq> 0"
  by (simp add: double_0_03_def)

lemma walk_single_5:
  "walk_levels_fl [\<lparr>price = double_0_03, size_lvl = 1000\<rparr>] (initial_state 5)
     = Inr \<lparr>remaining_notional = 0, total_cost = 5,
            total_shares = 2932031007402667 / 17592186044416\<rparr>"
  by (simp add: initial_state_def level_notional_fl_0_03 fl_truediv_def double_0_03_nonzero
      ev_fill5 ev_id5 ev_idfs)

lemma walk_single_6:
  "walk_levels_fl [\<lparr>price = double_0_03, size_lvl = 1000\<rparr>] (initial_state 6)
     = Inr \<lparr>remaining_notional = 0, total_cost = 6, total_shares = 200\<rparr>"
  by (simp add: initial_state_def level_notional_fl_0_03 fl_truediv_def double_0_03_nonzero
      ev_fill6 ev_id6 ev_id200)

lemma price_single_5:
  "calculate_effective_price_fl
     \<lparr>bids = bs, asks = [\<lparr>price = double_0_03, size_lvl = 1000\<rparr>]\<rparr> BUY 5
     = Inr (8646911284551351 / 2 ^ 58)
   \<and> calculate_effective_price_fl
     \<lparr>bids = [\<lparr>price = double_0_03, size_lvl = 1000\<rparr>], asks = as\<rparr> SELL 5
     = Inr (8646911284551351 / 2 ^ 58)"
  using ev_price5
  by (simp add: calculate_effective_price_fl_def side_levels_def walk_single_5
      fl_truediv_def del: walk_levels_fl.simps)

lemma price_single_6:
  "calculate_effective_price_fl
     \<lparr>bids = [\<lparr>price = double_0_03, size_lvl = 1000\<rparr>], asks = as\<rparr> SELL 6
     = Inr double_0_03"
  using fl_0_03
  by (simp add: calculate_effective_price_fl_def side_levels_def walk_single_6
      fl_truediv_def del: walk_levels_fl.simps)

lemma price_single_6_buy:
  "calculate_effective_price_fl
     \<lparr>bids = bs, asks = [\<lparr>price = double_0_03, size_lvl = 1000\<rparr>]\<rparr> BUY 6
     = Inr double_0_03"
  using fl_0_03
  by (simp add: calculate_effective_price_fl_def side_levels_def walk_single_6
      fl_truediv_def del: walk_levels_fl.simps)

text \<open>The double-precision results on the single level (0.03, 10000).\<close>

lemma ev_notional_wide: "fl (double_0_03 * 10000) = 300"
  unfolding double_0_03_def
  by (subst fl_pos_eval [where e = 8]) (simp_all add: round_even_def Let_def)

lemma ev_fill30: "fl (30 / double_0_03) = 1000"
  unfolding double_0_03_def
  by (subst fl_pos_eval [where e = 9]) (simp_all add: round_even_def Let_def)

lemma ev_fill40: "fl (40 / double_0_03) = 2932031007402667 / 2 ^ 41"
  unfolding double_0_03_def
  by (subst fl_pos_eval [where e = 10]) (simp_all add: round_even_def Let_def)

lemma ev_id30: "fl 30 = 30"
  by (subst fl_pos_eval [where e = 4]) (simp_all add: round_even_def Let_def)

lemma ev_id40: "fl 40 = 40"
  by (subst fl_pos_eval [where e = 5]) (simp_all add: round_even_def Let_def)

lemma ev_id1000: "fl 1000 = 1000"
  by (subst fl_pos_eval [where e = 9]) (simp_all add: round_even_def Let_def)

lemma ev_idfs40: "fl (2932031007402667 / 2199023255552) = 2932031007402667 / 2199023255552"
  by (subst fl_pos_eval [where e = 10]) (simp_all add: round_even_def Let_def)

lemma ev_price40:
  "fl (40 / (2932031007402667 / 2199023255552)) = 8646911284551351 / 288230376151711744"
  by (subst fl_pos_eval [where e = "-6"]) (simp_all add: round_even_def Let_def)

lemma level_notional_fl_wide:
  "level_notional_fl \<lparr>price = double_0_03, size_lvl = 10000\<rparr> = 300"
  by (simp add: level_notional_fl_def ev_notional_wide)

lemma walk_wide_30:
  "walk_levels_fl [\<lparr>price = double_0_03, size_lvl = 10000\<rparr>] (initial_state 30)
     = Inr \<lparr>remaining_notional = 0, total_cost = 30, total_shares = 1000\<rparr>"
  by (simp add: initial_state_def level_notional_fl_wide fl_truediv_def double_0_03_nonzero
      ev_fill30 ev_id30 ev_id1000)

lemma walk_wide_40:
  "walk_levels_fl [\<lparr>price = double_0_03, size_lvl = 10000\<rparr>] (initial_state 40)
     = Inr \<lparr>remaining_notional = 0, total_cost = 40,
            total_shares = 2932031007402667 / 2199023255552\<rparr>"
  by (simp add: initial_state_def level_notional_fl_wide fl_truediv_def double_0_03_nonzero
      ev_fill40 ev_id40 ev_idfs40)

lemma price_wide_30:
  "calculate_effective_price_fl
     \<lparr>bids = bs, asks = [\<lparr>price = double_0_03, size_lvl = 10000\<rparr>]\<rparr> BUY 30
     = Inr double_0_03"
  using fl_0_03
  by (simp add: calculate_effective_price_fl_def side_levels_def walk_wide_30
      fl_truediv_def del: walk_levels_fl.simps)

lemma price_wide_40:
  "calculate_effective_price_fl
     \<lparr>bids = bs, asks = [\<lparr>price = double_0_03, size_lvl = 10000\<rparr>]\<rparr> BUY 40
     = Inr (8646911284551351 / 2 ^ 58)"
  using ev_price40
  by (simp add: calculate_effective_price_fl_def side_levels_def walk_wide_40
      fl_truediv_def del: walk_levels_fl.simps)

subsection \<open>Auxiliary facts about clamping\<close>

lemma np_linspace_unit:
  assumes "2 \<le> points"
  shows "np_linspace 0 1 points
     = Inr (map (\<lambda>i. real i / real_of_int (points - 1)) [0..<nat points])"
  using assms by (simp add: np_linspace_def)

lemma np_clip_clamp: "lo \<le> hi \<Longrightarrow> np_clip x lo hi = clamp x lo hi"
  by (simp add: np_clip_def clamp_def min_def max_def)

lemma clamp_bounds: "lo \<le> hi \<Longrightarrow> lo \<le> clamp x lo hi \<and> clamp x lo hi \<le> hi"
  by (simp add: clamp_def)

lemma denominator_pos: "0 < max (1 - p) (1 / 1000000 :: real)"
  by (simp add: max_def)

subsection \<open>The worked two-level example\<close>

text \<open>
  C3. For asks \<open>[(0.40, 50), (0.50, 100)]\<close> and notional 30: the loop on the first level
  alone consumes it whole (20 notional, 50 shares, 10 notional left); the second level
  fills the remaining 10 at price 0.50, which adds 20 shares; the whole walk ends with
  cost 30 and 70 shares, and the function returns 30 / 70. This differs from the price
  that taking the second level's full size would give, (20 + 50) / (50 + 100).
\<close>

theorem effective_price_two_level_example:
  "walk_levels [\<lparr>price = 0.40, size_lvl = 50\<rparr>] (initial_state 30)
     = Inr \<lparr>remaining_notional = 10, total_cost = 20, total_shares = 50\<rparr>
   \<and> walk_levels [\<lparr>price = 0.50, size_lvl = 100\<rparr>]
        \<lparr>remaining_notional = 10, total_cost = 20, total_shares = 50\<rparr>
     = Inr \<lparr>remaining_notional = 0, total_cost = 30, total_shares = 70\<rparr>
   \<and> walk_levels [\<lparr>price = 0.40, size_lvl = 50\<rparr>, \<lparr>price = 0.50, size_lvl = 100\<rparr>]
        (initial_state 30)
     = Inr \<lparr>remaining_notional = 0, total_cost = 30, total_shares = 70\<rparr>
   \<and> calculate_effective_price
        \<lparr>bids = [], asks = [\<lparr>price = 0.40, size_lvl = 50\<rparr>, \<lparr>price = 0.50, size_lvl = 100\<rparr>]\<rparr>
        BUY 30
     = Inr (30 / 70)
   \<and> (30 / 70 :: real) \<noteq> (20 + 50) / (50 + 100)"
  by (simp add: calculate_effective_price_def side_levels_def initial_state_def
      level_notional_def py_truediv_def)

subsection \<open>Fills within the available liquidity\<close>

text \<open>
  C1, as stated, fails in double precision. For the single ask level (0.03, 1000) and
  notional 5, which is below the liquidity and leaves the level as the only one used, the
  double-precision function returns 8646911284551351 / 2 ^ 58 (Python prints it as
  0.029999999999999995), which is below the price of the only level used.
\<close>

theorem buy_price_below_only_level:
  "0 < double_0_03 \<and> double_0_03 \<le> 1
   \<and> (5::real) \<le> ask_liquidity \<lparr>bids = [], asks = [\<lparr>price = double_0_03, size_lvl = 1000\<rparr>]\<rparr>
   \<and> levels_used_fl [\<lparr>price = double_0_03, size_lvl = 1000\<rparr>] 5
       = [\<lparr>price = double_0_03, size_lvl = 1000\<rparr>]
   \<and> calculate_effective_price_fl
        \<lparr>bids = [], asks = [\<lparr>price = double_0_03, size_lvl = 1000\<rparr>]\<rparr> BUY 5
       = Inr (8646911284551351 / 2 ^ 58)
   \<and> 8646911284551351 / 2 ^ 58
       < Min (price ` set (levels_used_fl [\<lparr>price = double_0_03, size_lvl = 1000\<rparr>] 5))"
proof -
  have u: "levels_used_fl [\<lparr>price = double_0_03, size_lvl = 1000\<rparr>] 5
       = [\<lparr>price = double_0_03, size_lvl = 1000\<rparr>]"
    by (simp add: level_notional_fl_0_03)
  have l: "(5::real) \<le> ask_liquidity \<lparr>bids = [], asks = [\<lparr>price = double_0_03, size_lvl = 1000\<rparr>]\<rparr>"
    by (simp add: ask_liquidity_def level_notional_def double_0_03_def)
  have c: "8646911284551351 / 2 ^ 58 < double_0_03" "0 < double_0_03" "double_0_03 \<le> 1"
    by (simp_all add: double_0_03_def)
  show ?thesis unfolding u using l c price_single_5 [of "[]"] by simp
qed

text \<open>
  C1, amended. Let \<open>tol = ((1 + u) / (1 - u)) ^ (number of ask levels + 2)\<close> with \<open>u\<close> the
  unit roundoff of binary64. For an order book whose ask levels have prices in
  [2^-100, 1] and sizes that are 0 or in [2^-100, 2^100], and a notional \<open>n\<close> in
  [2^-100, 2^100] (bounds that keep every result of the double-precision code in the normal
  range), with \<open>L\<close> the total ask liquidity notional: if \<open>n * tol \<le> L\<close> the double-precision
  BUY call succeeds; if \<open>n > L * tol\<close> it fails with \<open>OrderbookDepthError\<close>; whenever it
  succeeds, its price \<open>p\<close> satisfies \<open>min \<le> p * tol\<close> and \<open>p \<le> max * tol\<close> for the least and
  greatest price of the levels used; and it never ends otherwise than with a price or
  \<open>OrderbookDepthError\<close>.
\<close>

theorem buy_fills_within_liquidity_rounded:
  assumes "\<forall>l\<in>set (asks orderbook).
             1 / 2 ^ 100 \<le> price l \<and> price l \<le> 1
             \<and> (size_lvl l = 0 \<or> 1 / 2 ^ 100 \<le> size_lvl l \<and> size_lvl l \<le> 2 ^ 100)"
    and "1 / 2 ^ 100 \<le> n" and "n \<le> 2 ^ 100"
  shows "(n * rounding_tolerance (length (asks orderbook) + 2) \<le> ask_liquidity orderbook
           \<longrightarrow> (\<exists>p. calculate_effective_price_fl orderbook BUY n = Inr p))
       \<and> (ask_liquidity orderbook * rounding_tolerance (length (asks orderbook) + 2) < n
           \<longrightarrow> calculate_effective_price_fl orderbook BUY n = Inl OrderbookDepthError)
       \<and> (\<forall>p. calculate_effective_price_fl orderbook BUY n = Inr p
           \<longrightarrow> levels_used_fl (asks orderbook) n \<noteq> []
             \<and> set (levels_used_fl (asks orderbook) n) \<subseteq> set (asks orderbook)
             \<and> Min (price ` set (levels_used_fl (asks orderbook) n))
                 \<le> p * rounding_tolerance (length (asks orderbook) + 2)
             \<and> p \<le> Max (price ` set (levels_used_fl (asks orderbook) n))
                     * rounding_tolerance (length (asks orderbook) + 2))
       \<and> ((\<exists>p. calculate_effective_price_fl orderbook BUY n = Inr p)
           \<or> calculate_effective_price_fl orderbook BUY n = Inl OrderbookDepthError)"
proof -
  let ?u = unit_roundoff
  let ?ls = "asks orderbook"
  let ?m = "length ?ls"
  let ?L = "ask_liquidity orderbook"
  let ?used = "levels_used_fl ?ls n"
  note u = unit_roundoff_bounds
  have sl: "side_levels orderbook BUY = ?ls" by (simp add: side_levels_def)
  have ok: "\<forall>l\<in>set ?ls. 0 < price l \<and> 0 \<le> size_lvl l"
  proof
    fix l assume "l \<in> set ?ls"
    with assms(1) have a: "1 / 2 ^ 100 \<le> price l"
      "size_lvl l = 0 \<or> 1 / 2 ^ 100 \<le> size_lvl l \<and> size_lvl l \<le> 2 ^ 100" by blast+
    have "(0::real) < 1 / 2 ^ 100" by simp
    then show "0 < price l \<and> 0 \<le> size_lvl l" using a by linarith
  qed
  have n: "0 < n"
  proof -
    have "(0::real) < 1 / 2 ^ 100" by simp
    then show ?thesis using assms(2) by linarith
  qed
  have L0: "0 \<le> ?L" using ok by (simp add: ask_liquidity_def sum_notional_nonneg)
  obtain t where t: "walk_levels_fl ?ls (initial_state n) = Inr t"
    using walk_levels_fl_total by blast
  have r0: "0 < remaining_notional (initial_state n)" "remaining_notional (initial_state n) = n"
    using n by (simp_all add: initial_state_def)
  have succ: "calculate_effective_price_fl orderbook BUY n
        = Inr (fl (total_cost t / total_shares t))"
    if f: "remaining_notional t \<le> 0"
  proof -
    have "0 < total_shares t" using price_fl_range [OF ok n t f] by blast
    then show ?thesis using calc_fl_success [of n orderbook BUY t] n t f by (simp add: sl)
  qed
  have depth: "calculate_effective_price_fl orderbook BUY n = Inl OrderbookDepthError"
    if f: "0 < remaining_notional t"
    using calc_fl_depth [of n orderbook BUY t] n t f by (simp add: sl)
  have a: "\<exists>p. calculate_effective_price_fl orderbook BUY n = Inr p"
    if h: "n * rounding_tolerance (?m + 2) \<le> ?L"
  proof -
    have "remaining_notional t \<le> 0"
    proof (rule ccontr)
      assume "\<not> remaining_notional t \<le> 0"
      then have f: "0 < remaining_notional t" by simp
      have s: "(1 - ?u) * ?L < n * (1 + ?u) ^ ?m"
        using walk_fl_short [OF ok r0(1) t f] by (simp add: r0(2) ask_liquidity_def)
      have "n * (1 + ?u) ^ ?m \<le> n * (1 + ?u) ^ (?m + 2)" using n by (intro grow_le) simp_all
      moreover have "n * (1 + ?u) ^ (?m + 2) \<le> ?L * (1 - ?u) ^ (?m + 2)"
        using h by (rule tolerance_elim)
      moreover have "?L * (1 - ?u) ^ (?m + 2) \<le> ?L * (1 - ?u) ^ 1"
        using L0 by (intro shrink_le) simp_all
      ultimately have "n * (1 + ?u) ^ ?m \<le> (1 - ?u) * ?L" by (simp add: mult.commute)
      then show False using s by linarith
    qed
    then show ?thesis using succ by blast
  qed
  have b: "calculate_effective_price_fl orderbook BUY n = Inl OrderbookDepthError"
    if h: "?L * rounding_tolerance (?m + 2) < n"
  proof -
    have "0 < remaining_notional t"
    proof (rule ccontr)
      assume "\<not> 0 < remaining_notional t"
      then have f: "remaining_notional t \<le> 0" by simp
      have s: "n * (1 - ?u) ^ ?m \<le> (1 + ?u) * ?L"
        using walk_fl_filled [OF ok r0(1) t f] by (simp add: r0(2) ask_liquidity_def)
      have "?L * (1 + ?u) ^ (?m + 2) < n * (1 - ?u) ^ (?m + 2)"
        using h by (rule tolerance_elim_less)
      moreover have "n * (1 - ?u) ^ (?m + 2) \<le> n * (1 - ?u) ^ ?m"
        using n by (intro shrink_le) simp_all
      moreover have "?L * (1 + ?u) ^ 1 \<le> ?L * (1 + ?u) ^ (?m + 2)"
        using L0 by (intro grow_le) simp_all
      ultimately have "(1 + ?u) * ?L < n * (1 - ?u) ^ ?m" by (simp add: mult.commute)
      then show False using s by linarith
    qed
    then show ?thesis by (rule depth)
  qed
  have c: "?used \<noteq> [] \<and> set ?used \<subseteq> set ?ls
      \<and> Min (price ` set ?used) \<le> p * rounding_tolerance (?m + 2)
      \<and> p \<le> Max (price ` set ?used) * rounding_tolerance (?m + 2)"
    if h: "calculate_effective_price_fl orderbook BUY n = Inr p" for p
  proof -
    from calc_fl_ok [OF h] t have f: "remaining_notional t \<le> 0"
      and p: "p = fl (total_cost t / total_shares t)"
      by (auto simp: sl)
    note rg = price_fl_range [OF ok n t f]
    have ne: "?used \<noteq> []" using rg by blast
    have sub: "set ?used \<subseteq> set ?ls" by (rule levels_used_fl_subset)
    have "Min (price ` set ?used) \<in> price ` set ?used" using ne by (intro Min_in) simp_all
    then obtain l where "l \<in> set ?used" "Min (price ` set ?used) = price l" by auto
    then have m0: "0 \<le> Min (price ` set ?used)" using ok sub by fastforce
    have lo: "\<forall>l\<in>set ?used. Min (price ` set ?used) \<le> price l" by simp
    have hi: "\<forall>l\<in>set ?used. price l \<le> Max (price ` set ?used)" by simp
    have "Min (price ` set ?used) \<le> p * rounding_tolerance (?m + 2)"
      using rg m0 lo unfolding p by blast
    moreover have "p \<le> Max (price ` set ?used) * rounding_tolerance (?m + 2)"
      using rg hi unfolding p by blast
    ultimately show ?thesis using ne sub by blast
  qed
  have d: "(\<exists>p. calculate_effective_price_fl orderbook BUY n = Inr p)
           \<or> calculate_effective_price_fl orderbook BUY n = Inl OrderbookDepthError"
    using succ depth by (cases "0 < remaining_notional t") auto
  show ?thesis using a b c d by blast
qed

theorem buy_fills_within_liquidity_rounded_witness:
  "5 * rounding_tolerance 3
      \<le> ask_liquidity \<lparr>bids = [], asks = [\<lparr>price = double_0_03, size_lvl = 1000\<rparr>]\<rparr>
   \<and> calculate_effective_price_fl
        \<lparr>bids = [], asks = [\<lparr>price = double_0_03, size_lvl = 1000\<rparr>]\<rparr> BUY 5
       = Inr (8646911284551351 / 2 ^ 58)
   \<and> double_0_03 \<le> 8646911284551351 / 2 ^ 58 * rounding_tolerance 3
   \<and> 8646911284551351 / 2 ^ 58 \<le> double_0_03 * rounding_tolerance 3"
proof -
  let ?b = "\<lparr>bids = [], asks = [\<lparr>price = double_0_03, size_lvl = 1000\<rparr>]\<rparr>"
  have h: "\<forall>l\<in>set (asks ?b).
             1 / 2 ^ 100 \<le> price l \<and> price l \<le> 1
             \<and> (size_lvl l = 0 \<or> 1 / 2 ^ 100 \<le> size_lvl l \<and> size_lvl l \<le> 2 ^ 100)"
    by (simp add: double_0_03_def)
  have n: "1 / 2 ^ 100 \<le> (5::real)" "(5::real) \<le> 2 ^ 100" by simp_all
  have l: "5 * rounding_tolerance 3 \<le> ask_liquidity ?b"
    by (simp add: rounding_tolerance_def unit_roundoff_def ask_liquidity_def level_notional_def
        double_0_03_def power3_eq_cube)
  have c: "calculate_effective_price_fl ?b BUY 5 = Inr (8646911284551351 / 2 ^ 58)"
    using price_single_5 [of "[]"] by simp
  have u: "levels_used_fl (asks ?b) 5 = [\<lparr>price = double_0_03, size_lvl = 1000\<rparr>]"
    by (simp add: level_notional_fl_0_03)
  from buy_fills_within_liquidity_rounded [OF h n] c
  have "Min (price ` set (levels_used_fl (asks ?b) 5))
          \<le> 8646911284551351 / 2 ^ 58 * rounding_tolerance (length (asks ?b) + 2)
      \<and> 8646911284551351 / 2 ^ 58
          \<le> Max (price ` set (levels_used_fl (asks ?b) 5))
              * rounding_tolerance (length (asks ?b) + 2)"
    by blast
  then have "double_0_03 \<le> 8646911284551351 / 2 ^ 58 * rounding_tolerance 3
      \<and> 8646911284551351 / 2 ^ 58 \<le> double_0_03 * rounding_tolerance 3"
    unfolding u by (simp add: numeral_3_eq_3)
  then show ?thesis using l c by blast
qed

subsection \<open>Monotonicity in the trade size\<close>

text \<open>
  C4, as stated, fails in double precision. On the single ask level (0.03, 10000) the
  double-precision BUY price for the notional 30 is the double 0.03 and for the larger
  notional 40 it is 8646911284551351 / 2 ^ 58 (Python prints it as 0.029999999999999995),
  which is lower. On the single bid level (0.03, 1000) the SELL price for the notional 5 is
  8646911284551351 / 2 ^ 58 and for the larger notional 6 it is the double 0.03, which is
  higher.
\<close>

theorem price_not_monotone_in_size:
  "0 < double_0_03 \<and> double_0_03 \<le> 1
   \<and> calculate_effective_price_fl
        \<lparr>bids = [], asks = [\<lparr>price = double_0_03, size_lvl = 10000\<rparr>]\<rparr> BUY 30
       = Inr double_0_03
   \<and> calculate_effective_price_fl
        \<lparr>bids = [], asks = [\<lparr>price = double_0_03, size_lvl = 10000\<rparr>]\<rparr> BUY 40
       = Inr (8646911284551351 / 2 ^ 58)
   \<and> calculate_effective_price_fl
        \<lparr>bids = [\<lparr>price = double_0_03, size_lvl = 1000\<rparr>], asks = []\<rparr> SELL 5
       = Inr (8646911284551351 / 2 ^ 58)
   \<and> calculate_effective_price_fl
        \<lparr>bids = [\<lparr>price = double_0_03, size_lvl = 1000\<rparr>], asks = []\<rparr> SELL 6
       = Inr double_0_03
   \<and> (30::real) \<le> 40 \<and> (5::real) \<le> 6
   \<and> 8646911284551351 / 2 ^ 58 < double_0_03"
proof -
  have c: "8646911284551351 / 2 ^ 58 < double_0_03" "0 < double_0_03" "double_0_03 \<le> 1"
    by (simp_all add: double_0_03_def)
  show ?thesis
    using c price_single_5 [of "[]" "[]"] price_single_6 [of "[]"]
      price_wide_30 [of "[]"] price_wide_40 [of "[]"] by simp
qed

text \<open>
  C4, amended. Let \<open>u\<close> be the unit roundoff of binary64 and, for a side with \<open>m\<close> levels,
  \<open>tol = ((1 + u) / (1 - u)) ^ (2 * m + 4)\<close>. For an order book whose asks are sorted by
  ascending price and whose bids are sorted by descending price, with all prices in
  [2^-100, 1] and all sizes 0 or in [2^-100, 2^100], and notionals
  \<open>2^-100 \<le> n1 \<le> n2 \<le> 2^100\<close> (bounds that keep every result of the double-precision code
  in the normal range): if the double-precision \<open>calculate_effective_price\<close> succeeds for
  BUY on both notionals with prices \<open>p1\<close> and \<open>p2\<close>, then \<open>p1 \<le> p2 * tol\<close> with the number of
  asks for \<open>m\<close>; if it succeeds for SELL on both with prices \<open>q1\<close> and \<open>q2\<close>, then
  \<open>q2 \<le> q1 * tol\<close> with the number of bids for \<open>m\<close>. The price is monotone in the trade
  size up to the accumulated rounding of the loop, and not exactly.
\<close>

theorem vwap_monotone_rounded:
  assumes "sorted (map price (asks orderbook))"
    and "sorted_wrt (\<lambda>a b. b \<le> a) (map price (bids orderbook))"
    and "\<forall>l\<in>set (asks orderbook) \<union> set (bids orderbook).
           1 / 2 ^ 100 \<le> price l \<and> price l \<le> 1
           \<and> (size_lvl l = 0 \<or> 1 / 2 ^ 100 \<le> size_lvl l \<and> size_lvl l \<le> 2 ^ 100)"
    and "1 / 2 ^ 100 \<le> n1" and "n1 \<le> n2" and "n2 \<le> 2 ^ 100"
  shows "(calculate_effective_price_fl orderbook BUY n1 = Inr p1
            \<longrightarrow> calculate_effective_price_fl orderbook BUY n2 = Inr p2
            \<longrightarrow> p1 \<le> p2 * rounding_tolerance (2 * length (asks orderbook) + 4))
       \<and> (calculate_effective_price_fl orderbook SELL n1 = Inr q1
            \<longrightarrow> calculate_effective_price_fl orderbook SELL n2 = Inr q2
            \<longrightarrow> q2 \<le> q1 * rounding_tolerance (2 * length (bids orderbook) + 4))"
proof (intro conjI impI)
  have n1: "0 < n1"
  proof -
    have "(0::real) < 1 / 2 ^ 100" by simp
    then show ?thesis using assms(4) by linarith
  qed
  have n2: "0 < n2" using n1 assms(5) by linarith
  have all_ok: "\<forall>l\<in>set (asks orderbook) \<union> set (bids orderbook). 0 < price l \<and> 0 \<le> size_lvl l"
    using assms(3) by (rule regime_levels_ok)
  have i1: "total_cost (initial_state n2) = total_cost (initial_state n1)"
    "total_shares (initial_state n2) = total_shares (initial_state n1)"
    "0 \<le> total_cost (initial_state n1)" "0 \<le> total_shares (initial_state n1)"
    "0 < remaining_notional (initial_state n1)"
    "remaining_notional (initial_state n1) \<le> remaining_notional (initial_state n2)"
    "0 < remaining_notional (initial_state n2)"
    using n1 n2 assms(5) by (simp_all add: initial_state_def)
  {
    assume c1: "calculate_effective_price_fl orderbook BUY n1 = Inr p1"
      and c2: "calculate_effective_price_fl orderbook BUY n2 = Inr p2"
    let ?ls = "asks orderbook"
    have sl: "side_levels orderbook BUY = ?ls" by (simp add: side_levels_def)
    have ok: "\<forall>l\<in>set ?ls. 0 < price l \<and> 0 \<le> size_lvl l" using all_ok by simp
    from calc_fl_ok [OF c1] obtain t1 where
      t1: "walk_levels_fl ?ls (initial_state n1) = Inr t1" "remaining_notional t1 \<le> 0"
        "p1 = fl (total_cost t1 / total_shares t1)"
      by (auto simp: sl)
    from calc_fl_ok [OF c2] obtain t2 where
      t2: "walk_levels_fl ?ls (initial_state n2) = Inr t2" "remaining_notional t2 \<le> 0"
        "p2 = fl (total_cost t2 / total_shares t2)"
      by (auto simp: sl)
    have pos1: "0 < total_cost t1" "0 < total_shares t1"
      using walk_fl_positive [OF ok i1(5) i1(3) i1(4) t1(1) t1(2)] by simp_all
    have pos2: "0 < total_cost t2" "0 < total_shares t2"
      using walk_fl_positive [OF ok i1(7) _ _ t2(1) t2(2)] by (simp_all add: initial_state_def)
    have inv: "\<forall>l\<in>set ?ls. total_cost (initial_state n1) * (1 - unit_roundoff) ^ Suc 0
            \<le> price l * total_shares (initial_state n1) * (1 + unit_roundoff) ^ 0"
      by (simp add: initial_state_def)
    have "total_cost t1 * total_shares t2 * (1 - unit_roundoff) ^ (0 + 2 * length ?ls + 3)
           \<le> total_cost t2 * total_shares t1 * (1 + unit_roundoff) ^ (0 + 2 * length ?ls + 3)"
      by (rule buy_ratio_fl [OF assms(1) ok i1(1) i1(2) i1(3) i1(4) i1(5) i1(6) inv
            t1(1) t2(1) t1(2) t2(2)])
    then have "total_cost t1 * total_shares t2 * (1 - unit_roundoff) ^ (2 * length ?ls + 3)
           \<le> total_cost t2 * total_shares t1 * (1 + unit_roundoff) ^ (2 * length ?ls + 3)"
      by simp
    then have "fl (total_cost t1 / total_shares t1)
           \<le> fl (total_cost t2 / total_shares t2) * rounding_tolerance (Suc (2 * length ?ls + 3))"
      by (rule price_ratio_final [OF pos1 pos2])
    moreover have "Suc (2 * length ?ls + 3) = 2 * length ?ls + 4" by simp
    ultimately show "p1 \<le> p2 * rounding_tolerance (2 * length (asks orderbook) + 4)"
      unfolding t1(3) t2(3) by (simp only:)
  }
  {
    assume c1: "calculate_effective_price_fl orderbook SELL n1 = Inr q1"
      and c2: "calculate_effective_price_fl orderbook SELL n2 = Inr q2"
    let ?ls = "bids orderbook"
    have sl: "side_levels orderbook SELL = ?ls" by (simp add: side_levels_def)
    have ok: "\<forall>l\<in>set ?ls. 0 < price l \<and> 0 \<le> size_lvl l" using all_ok by simp
    from calc_fl_ok [OF c1] obtain t1 where
      t1: "walk_levels_fl ?ls (initial_state n1) = Inr t1" "remaining_notional t1 \<le> 0"
        "q1 = fl (total_cost t1 / total_shares t1)"
      by (auto simp: sl)
    from calc_fl_ok [OF c2] obtain t2 where
      t2: "walk_levels_fl ?ls (initial_state n2) = Inr t2" "remaining_notional t2 \<le> 0"
        "q2 = fl (total_cost t2 / total_shares t2)"
      by (auto simp: sl)
    have pos1: "0 < total_cost t1" "0 < total_shares t1"
      using walk_fl_positive [OF ok i1(5) i1(3) i1(4) t1(1) t1(2)] by simp_all
    have pos2: "0 < total_cost t2" "0 < total_shares t2"
      using walk_fl_positive [OF ok i1(7) _ _ t2(1) t2(2)] by (simp_all add: initial_state_def)
    have inv: "\<forall>l\<in>set ?ls. price l * total_shares (initial_state n1) * (1 - unit_roundoff) ^ Suc 0
            \<le> total_cost (initial_state n1) * (1 + unit_roundoff) ^ 0"
      by (simp add: initial_state_def)
    have "total_cost t2 * total_shares t1 * (1 - unit_roundoff) ^ (0 + 2 * length ?ls + 3)
           \<le> total_cost t1 * total_shares t2 * (1 + unit_roundoff) ^ (0 + 2 * length ?ls + 3)"
      by (rule sell_ratio_fl [OF assms(2) ok i1(1) i1(2) i1(3) i1(4) i1(5) i1(6) inv
            t1(1) t2(1) t1(2) t2(2)])
    then have "total_cost t2 * total_shares t1 * (1 - unit_roundoff) ^ (2 * length ?ls + 3)
           \<le> total_cost t1 * total_shares t2 * (1 + unit_roundoff) ^ (2 * length ?ls + 3)"
      by simp
    then have "fl (total_cost t2 / total_shares t2)
           \<le> fl (total_cost t1 / total_shares t1) * rounding_tolerance (Suc (2 * length ?ls + 3))"
      by (rule price_ratio_final [OF pos2 pos1])
    moreover have "Suc (2 * length ?ls + 3) = 2 * length ?ls + 4" by simp
    ultimately show "q2 \<le> q1 * rounding_tolerance (2 * length (bids orderbook) + 4)"
      unfolding t1(3) t2(3) by (simp only:)
  }
qed

theorem vwap_monotone_rounded_witness:
  "calculate_effective_price_fl
      \<lparr>bids = [\<lparr>price = double_0_03, size_lvl = 1000\<rparr>],
       asks = [\<lparr>price = double_0_03, size_lvl = 1000\<rparr>]\<rparr> SELL 5
     = Inr (8646911284551351 / 2 ^ 58)
   \<and> calculate_effective_price_fl
      \<lparr>bids = [\<lparr>price = double_0_03, size_lvl = 1000\<rparr>],
       asks = [\<lparr>price = double_0_03, size_lvl = 1000\<rparr>]\<rparr> SELL 6
     = Inr double_0_03
   \<and> double_0_03 \<le> 8646911284551351 / 2 ^ 58 * rounding_tolerance 6
   \<and> 8646911284551351 / 2 ^ 58 \<le> double_0_03 * rounding_tolerance 6"
proof -
  let ?l = "\<lparr>price = double_0_03, size_lvl = 1000\<rparr>"
  let ?b = "\<lparr>bids = [?l], asks = [?l]\<rparr>"
  have a: "sorted (map price (asks ?b))"
    and b: "sorted_wrt (\<lambda>a b. b \<le> a) (map price (bids ?b))"
    by simp_all
  have c: "\<forall>l\<in>set (asks ?b) \<union> set (bids ?b).
           1 / 2 ^ 100 \<le> price l \<and> price l \<le> 1
           \<and> (size_lvl l = 0 \<or> 1 / 2 ^ 100 \<le> size_lvl l \<and> size_lvl l \<le> 2 ^ 100)"
    by (simp add: double_0_03_def)
  have n: "1 / 2 ^ 100 \<le> (5::real)" "(5::real) \<le> 6" "(6::real) \<le> 2 ^ 100" by simp_all
  have s5: "calculate_effective_price_fl ?b SELL 5 = Inr (8646911284551351 / 2 ^ 58)"
    and b5: "calculate_effective_price_fl ?b BUY 5 = Inr (8646911284551351 / 2 ^ 58)"
    using price_single_5 [of "[?l]" "[?l]"] by simp_all
  have s6: "calculate_effective_price_fl ?b SELL 6 = Inr double_0_03"
    using price_single_6 [of "[?l]"] by simp
  have b6: "calculate_effective_price_fl ?b BUY 6 = Inr double_0_03"
    using price_single_6_buy [of "[?l]"] by simp
  from vwap_monotone_rounded [OF a b c n, of "8646911284551351 / 2 ^ 58" double_0_03
      "8646911284551351 / 2 ^ 58" double_0_03] s5 s6 b5 b6
  have "8646911284551351 / 2 ^ 58 \<le> double_0_03 * rounding_tolerance (2 * length (asks ?b) + 4)"
    "double_0_03 \<le> 8646911284551351 / 2 ^ 58 * rounding_tolerance (2 * length (bids ?b) + 4)"
    by blast+
  then have "8646911284551351 / 2 ^ 58 \<le> double_0_03 * rounding_tolerance 6"
    "double_0_03 \<le> 8646911284551351 / 2 ^ 58 * rounding_tolerance 6"
    by simp_all
  then show ?thesis using s5 s6 by blast
qed

subsection \<open>Failure modes\<close>

text \<open>
  C2. \<open>calculate_effective_price\<close> fails with \<open>ValueError\<close> exactly when the notional is at
  most 0, whatever the book is (the check precedes the loop). The loop itself always
  returns a state; for a positive notional the function fails with
  \<open>OrderbookDepthError\<close> exactly when that state has a positive remaining notional or
  total shares at most 0, and returns total cost / total shares otherwise. An empty ask
  side fails with \<open>OrderbookDepthError\<close> for every positive BUY notional. No other error
  is possible.
\<close>

theorem failure_modes:
  "(calculate_effective_price orderbook side n = Inl ValueError \<longleftrightarrow> n \<le> 0)
   \<and> (\<exists>st. walk_levels (side_levels orderbook side) (initial_state n) = Inr st
        \<and> (0 < n \<longrightarrow>
             (calculate_effective_price orderbook side n = Inl OrderbookDepthError
                \<longleftrightarrow> 0 < remaining_notional st \<or> total_shares st \<le> 0)
           \<and> (\<not> (0 < remaining_notional st \<or> total_shares st \<le> 0) \<longrightarrow>
                calculate_effective_price orderbook side n
                  = Inr (total_cost st / total_shares st))))
   \<and> (0 < n \<longrightarrow> calculate_effective_price \<lparr>bids = bs, asks = []\<rparr> BUY n
                   = Inl OrderbookDepthError)
   \<and> calculate_effective_price orderbook side n \<noteq> Inl ZeroDivisionError"
proof -
  obtain st where st: "walk_levels (side_levels orderbook side) (initial_state n) = Inr st"
    using walk_levels_total by blast
  have a: "calculate_effective_price orderbook side n = Inl ValueError \<longleftrightarrow> n \<le> 0"
    by (simp add: calculate_effective_price_def st py_truediv_def)
  have b: "0 < n \<Longrightarrow>
     (calculate_effective_price orderbook side n = Inl OrderbookDepthError
        \<longleftrightarrow> 0 < remaining_notional st \<or> total_shares st \<le> 0)"
    by (simp add: calculate_effective_price_def st py_truediv_def)
  have c: "0 < n \<Longrightarrow> \<not> (0 < remaining_notional st \<or> total_shares st \<le> 0) \<Longrightarrow>
     calculate_effective_price orderbook side n = Inr (total_cost st / total_shares st)"
    by (simp add: calculate_effective_price_def st py_truediv_def)
  have d: "0 < n \<Longrightarrow> calculate_effective_price \<lparr>bids = bs, asks = []\<rparr> BUY n
                   = Inl OrderbookDepthError"
    by (simp add: calculate_effective_price_def side_levels_def initial_state_def)
  have e: "calculate_effective_price orderbook side n \<noteq> Inl ZeroDivisionError"
    by (simp add: calculate_effective_price_def st py_truediv_def)
  show ?thesis using st a b c d e by blast
qed

theorem failure_modes_witness:
  "calculate_effective_price example_book BUY 0 = Inl ValueError
   \<and> calculate_effective_price example_book BUY 30 \<noteq> Inl ValueError
   \<and> calculate_effective_price \<lparr>bids = [], asks = []\<rparr> BUY 30 = Inl OrderbookDepthError
   \<and> calculate_effective_price example_book BUY 30 \<noteq> Inl ZeroDivisionError"
  using failure_modes [of example_book BUY 0 "[]"] failure_modes [of example_book BUY 30 "[]"]
  by simp

subsection \<open>No division by zero\<close>

text \<open>
  C9. \<open>calculate_effective_price\<close> never raises \<open>ZeroDivisionError\<close>, for any book, side and
  notional, and neither does the loop from any state: a level whose notional is positive
  has a price other than 0, so the fill division succeeds wherever it is reached, and
  the final division succeeds whenever the total shares are positive, which the guard
  before it ensures.
\<close>

theorem no_division_by_zero:
  "walk_levels levels st \<noteq> Inl ZeroDivisionError
   \<and> (0 < level_notional level \<longrightarrow> price level \<noteq> 0
        \<and> py_truediv r (price level) = Inr (r / price level))
   \<and> (0 < total_shares st \<longrightarrow>
        py_truediv (total_cost st) (total_shares st) = Inr (total_cost st / total_shares st))
   \<and> calculate_effective_price orderbook side n \<noteq> Inl ZeroDivisionError"
proof -
  obtain st' where st': "walk_levels (side_levels orderbook side) (initial_state n) = Inr st'"
    using walk_levels_total by blast
  have a: "walk_levels levels st \<noteq> Inl ZeroDivisionError"
    by (rule walk_levels_no_error)
  have b: "0 < level_notional level \<Longrightarrow> price level \<noteq> 0"
    using notional_zero_price [of level] by auto
  have c: "calculate_effective_price orderbook side n \<noteq> Inl ZeroDivisionError"
    by (simp add: calculate_effective_price_def st' py_truediv_def)
  show ?thesis using a b c by (simp add: py_truediv_def)
qed

theorem no_division_by_zero_witness:
  "walk_levels (asks example_book) (initial_state 30) \<noteq> Inl ZeroDivisionError
   \<and> py_truediv 10 (price \<lparr>price = 0.50, size_lvl = 100\<rparr>) = Inr (10 / 0.50)
   \<and> py_truediv 30 70 = Inr (30 / 70)
   \<and> calculate_effective_price example_book BUY 30 \<noteq> Inl ZeroDivisionError"
  using no_division_by_zero [of "asks example_book"
      "\<lparr>remaining_notional = 0, total_cost = 30, total_shares = 70\<rparr>"
      "\<lparr>price = 0.50, size_lvl = 100\<rparr>" 10 example_book BUY 30]
    no_division_by_zero [of "asks example_book" "initial_state 30"
      "\<lparr>price = 0.50, size_lvl = 100\<rparr>" 10 example_book BUY 30]
  by (simp add: level_notional_def)

subsection \<open>Early stop\<close>

text \<open>
  C5. When \<open>calculate_effective_price\<close> succeeds for a notional \<open>n > 0\<close>, there is a level
  \<open>k\<close> of the traversed side that completes the fill: the levels before it alone do not
  fill the order, and every order book that has the same levels up to and including
  \<open>k\<close> on that side gives the same price. In particular, appending further levels to the
  traversed side leaves the price unchanged.
\<close>

theorem early_stop_prefix_only:
  assumes "0 < n" and "calculate_effective_price orderbook side n = Inr p"
  shows "calculate_effective_price
           (with_levels orderbook side (side_levels orderbook side @ extra)) side n = Inr p
     \<and> (\<exists>k<length (side_levels orderbook side).
          (\<forall>other. take (Suc k) (side_levels other side)
                     = take (Suc k) (side_levels orderbook side)
               \<longrightarrow> calculate_effective_price other side n = Inr p)
        \<and> calculate_effective_price
             (with_levels orderbook side (take k (side_levels orderbook side))) side n
            = Inl OrderbookDepthError)"
proof -
  let ?ls = "side_levels orderbook side"
  from calc_ok_remaining [OF assms(2)]
  obtain st where st: "walk_levels ?ls (initial_state n) = Inr st"
    "remaining_notional st \<le> 0" "0 < total_shares st" "p = total_cost st / total_shares st"
    by blast
  have r0: "0 < remaining_notional (initial_state n)"
    using assms(1) by (simp add: initial_state_def)
  from walk_levels_prefix [OF r0 st(1) st(2)]
  obtain k where k: "k < length ?ls"
    "\<forall>zs. walk_levels (take (Suc k) ?ls @ zs) (initial_state n) = Inr st"
    "\<exists>st''. walk_levels (take k ?ls) (initial_state n) = Inr st'' \<and> 0 < remaining_notional st''"
    by blast
  have pre: "calculate_effective_price other side n = Inr p"
    if "take (Suc k) (side_levels other side) = take (Suc k) ?ls" for other
  proof -
    have "side_levels other side = take (Suc k) ?ls @ drop (Suc k) (side_levels other side)"
      using that append_take_drop_id [of "Suc k" "side_levels other side"] by simp
    then have "walk_levels (side_levels other side) (initial_state n) = Inr st"
      using k(2) by metis
    from calc_from_walk [OF assms(1) this st(2) st(3)] show ?thesis using st(4) by simp
  qed
  have "take (Suc k) (?ls @ extra) = take (Suc k) ?ls" using k(1) by simp
  then have app: "calculate_effective_price (with_levels orderbook side (?ls @ extra)) side n = Inr p"
    using pre [of "with_levels orderbook side (?ls @ extra)"] by simp
  have short: "calculate_effective_price (with_levels orderbook side (take k ?ls)) side n
       = Inl OrderbookDepthError"
    using k(3) assms(1) by (auto simp: calculate_effective_price_def)
  show ?thesis using app pre short k(1) by blast
qed

theorem early_stop_prefix_only_witness:
  "calculate_effective_price example_book BUY 30 = Inr (30 / 70)
   \<and> calculate_effective_price
        (with_levels example_book BUY (side_levels example_book BUY @ [\<lparr>price = 0.90, size_lvl = 10\<rparr>]))
        BUY 30 = Inr (30 / 70)"
proof -
  have n: "(0::real) < 30" by simp
  have c: "calculate_effective_price example_book BUY 30 = Inr (30 / 70)"
    by (simp add: example_book_def calculate_effective_price_def side_levels_def
        initial_state_def level_notional_def py_truediv_def)
  show ?thesis
    using early_stop_prefix_only [OF n c, of "[\<lparr>price = 0.90, size_lvl = 10\<rparr>]"] c
    by simp
qed

subsection \<open>Belief shape parameters\<close>

text \<open>
  C6. For every belief and strength, \<open>parameters\<close> returns
  \<open>alpha = clamp belief 0 1 * clamp strength 1 100 + 1\<close> and
  \<open>beta = (1 - clamp belief 0 1) * clamp strength 1 100 + 1\<close> (the function has no failing
  branch), and both are at least 1, hence greater than 0.
\<close>

theorem parameters_clamped:
  "parameters \<lparr>belief_probability = belief, confidence_strength = strength\<rparr>
     = (clamp belief 0 1 * clamp strength 1 100 + 1,
        (1 - clamp belief 0 1) * clamp strength 1 100 + 1)
   \<and> 1 \<le> fst (parameters \<lparr>belief_probability = belief, confidence_strength = strength\<rparr>)
   \<and> 1 \<le> snd (parameters \<lparr>belief_probability = belief, confidence_strength = strength\<rparr>)
   \<and> 0 < fst (parameters \<lparr>belief_probability = belief, confidence_strength = strength\<rparr>)
   \<and> 0 < snd (parameters \<lparr>belief_probability = belief, confidence_strength = strength\<rparr>)"
proof -
  have b: "0 \<le> clamp belief 0 1" "clamp belief 0 1 \<le> 1"
    using clamp_bounds [of 0 1 belief] by simp_all
  have s: "1 \<le> clamp strength 1 100"
    using clamp_bounds [of 1 100 strength] by simp
  have eq: "parameters \<lparr>belief_probability = belief, confidence_strength = strength\<rparr>
     = (clamp belief 0 1 * clamp strength 1 100 + 1,
        (1 - clamp belief 0 1) * clamp strength 1 100 + 1)"
    by (simp add: parameters_def Let_def np_clip_clamp)
  have a1: "0 \<le> clamp belief 0 1 * clamp strength 1 100"
    using b s by simp
  have a2: "0 \<le> (1 - clamp belief 0 1) * clamp strength 1 100"
    using b s by simp
  show ?thesis
    unfolding eq using a1 a2 by simp
qed

subsection \<open>Trade metrics\<close>

text \<open>
  C7. For every entry price, target probability and trade size, \<open>compute_trade_metrics\<close>
  returns a scenario whose entry price and belief probability are the inputs clamped to
  [0, 1], whose \<open>ev_percentage\<close> is their difference times 100 and whose \<open>kelly_fraction\<close> is
  \<open>max 0 (ev / max (1 - price) 1e-6)\<close>, which is at least 0. For target probability 0.3
  and entry price 0.5 the expected value is -0.2 (reported as -0.2 times 100) and the
  Kelly fraction is 0.
\<close>

theorem compute_trade_metrics_fields:
  "compute_trade_metrics entry_price target_probability trade_size
     = Inr \<lparr>trade_size_usd = trade_size,
            belief_probability = clamp target_probability 0 1,
            effective_entry_price = clamp entry_price 0 1,
            ev_percentage = (clamp target_probability 0 1 - clamp entry_price 0 1) * 100,
            kelly_fraction =
              max 0 ((clamp target_probability 0 1 - clamp entry_price 0 1)
                       / max (1 - clamp entry_price 0 1) (1 / 1000000))\<rparr>
   \<and> 0 \<le> max 0 ((clamp target_probability 0 1 - clamp entry_price 0 1)
                       / max (1 - clamp entry_price 0 1) (1 / 1000000))
   \<and> compute_trade_metrics (5 / 10) (3 / 10) trade_size
     = Inr \<lparr>trade_size_usd = trade_size,
            belief_probability = 3 / 10,
            effective_entry_price = 5 / 10,
            ev_percentage = (- 2 / 10) * 100,
            kelly_fraction = 0\<rparr>"
proof -
  have d: "max (1 - clamp entry_price 0 1) (1 / 1000000) \<noteq> 0"
    using denominator_pos [of "clamp entry_price 0 1"] by simp
  have gen: "compute_trade_metrics entry_price target_probability trade_size
     = Inr \<lparr>trade_size_usd = trade_size,
            belief_probability = clamp target_probability 0 1,
            effective_entry_price = clamp entry_price 0 1,
            ev_percentage = (clamp target_probability 0 1 - clamp entry_price 0 1) * 100,
            kelly_fraction =
              max 0 ((clamp target_probability 0 1 - clamp entry_price 0 1)
                       / max (1 - clamp entry_price 0 1) (1 / 1000000))\<rparr>"
    using d by (simp add: compute_trade_metrics_def Let_def np_clip_clamp py_truediv_def)
  have ex: "compute_trade_metrics (5 / 10) (3 / 10) trade_size
     = Inr \<lparr>trade_size_usd = trade_size,
            belief_probability = 3 / 10,
            effective_entry_price = 5 / 10,
            ev_percentage = (- 2 / 10) * 100,
            kelly_fraction = 0\<rparr>"
    by (simp add: compute_trade_metrics_def Let_def np_clip_def py_truediv_def)
  show ?thesis using gen ex by simp
qed

text \<open>
  C10. For every input the Kelly fraction of the returned scenario lies in [0, 1].
\<close>

theorem kelly_fraction_unit_interval:
  "\<exists>sc. compute_trade_metrics entry_price target_probability trade_size = Inr sc
     \<and> 0 \<le> kelly_fraction sc \<and> kelly_fraction sc \<le> 1"
proof -
  let ?p = "np_clip entry_price 0 1"
  let ?q = "np_clip target_probability 0 1"
  let ?d = "max (1 - ?p) (1 / 1000000)"
  have d: "0 < ?d" by (rule denominator_pos)
  have "?q \<le> 1" by (simp add: np_clip_def)
  then have "?q - ?p \<le> ?d" by (simp add: max_def)
  then have "(?q - ?p) / ?d \<le> 1" using d by (simp add: divide_le_eq)
  then have k: "max 0 ((?q - ?p) / ?d) \<le> 1" by simp
  have "compute_trade_metrics entry_price target_probability trade_size
     = Inr \<lparr>trade_size_usd = trade_size,
            belief_probability = ?q,
            effective_entry_price = ?p,
            ev_percentage = (?q - ?p) * 100,
            kelly_fraction = max 0 ((?q - ?p) / ?d)\<rparr>"
    using d by (simp add: compute_trade_metrics_def Let_def py_truediv_def)
  then show ?thesis using k by simp
qed

subsection \<open>Density curve\<close>

text \<open>
  C8. For every point count of at least 2 and every belief model, \<open>pdf\<close> returns (it does
  not fail) an \<open>xs\<close> of exactly that many values with \<open>xs[0] = 0\<close>, last value 1,
  \<open>xs[i] = i / (points - 1)\<close> and consecutive values \<open>1 / (points - 1)\<close> apart, all within
  [0, 1], and a \<open>ys\<close> of the same length where \<open>ys[i]\<close> is the Beta density
  \<open>x^(alpha-1) (1-x)^(beta-1) / B(alpha, beta)\<close> at \<open>xs[i]\<close> for the shape parameters of
  \<open>parameters\<close>. At the boundary points the density is defined: at 0 it is \<open>1 / B\<close> when
  \<open>alpha = 1\<close> and 0 otherwise, at 1 it is \<open>1 / B\<close> when \<open>beta = 1\<close> and 0 otherwise.
\<close>

theorem pdf_evenly_spaced_density:
  assumes "2 \<le> points"
  shows "\<exists>xs ys. pdf B self points = Inr (xs, ys)
      \<and> length xs = nat points \<and> length ys = nat points
      \<and> xs ! 0 = 0 \<and> xs ! (nat points - 1) = 1
      \<and> (\<forall>i<nat points. xs ! i = real i / real_of_int (points - 1))
      \<and> (\<forall>i. Suc i < nat points \<longrightarrow> xs ! Suc i - xs ! i = 1 / real_of_int (points - 1))
      \<and> (\<forall>i<nat points. 0 \<le> xs ! i \<and> xs ! i \<le> 1
            \<and> ys ! i = beta_power (xs ! i) (fst (parameters self) - 1)
                        * beta_power (1 - xs ! i) (snd (parameters self) - 1)
                        / B (fst (parameters self)) (snd (parameters self)))
      \<and> ys ! 0 = (if fst (parameters self) = 1 then 1 else 0)
                   / B (fst (parameters self)) (snd (parameters self))
      \<and> ys ! (nat points - 1) = (if snd (parameters self) = 1 then 1 else 0)
                   / B (fst (parameters self)) (snd (parameters self))"
proof -
  let ?n = "nat points"
  let ?d = "real_of_int (points - 1)"
  obtain a b where ab: "parameters self = (a, b)" by (cases "parameters self")
  define xs where "xs = map (\<lambda>i. real i / ?d) [0..<?n]"
  define ys where "ys = map (\<lambda>v. beta_dist_pdf B v a b) xs"
  have d: "0 < ?d" using assms by simp
  have n: "0 < ?n" "real (?n - 1) = ?d" using assms by (simp_all add: of_nat_diff)
  have last: "?n - 1 < ?n" using n(1) by simp
  have p: "pdf B self points = Inr (xs, ys)"
    by (simp add: pdf_def ab np_linspace_unit [OF assms] xs_def ys_def)
  have lx: "length xs = ?n" by (simp add: xs_def)
  have ly: "length ys = ?n" by (simp add: ys_def lx)
  have x: "xs ! i = real i / ?d" if "i < ?n" for i using that by (simp add: xs_def)
  have r: "0 \<le> xs ! i \<and> xs ! i \<le> 1" if "i < ?n" for i
  proof -
    have "real i \<le> real (?n - 1)" using that by simp
    then have "real i \<le> ?d" using n(2) by simp
    then show ?thesis using d by (simp add: x [OF that])
  qed
  have y: "ys ! i = beta_power (xs ! i) (a - 1) * beta_power (1 - xs ! i) (b - 1) / B a b"
    if "i < ?n" for i
  proof -
    have "ys ! i = beta_dist_pdf B (xs ! i) a b" using that by (simp add: ys_def lx)
    then show ?thesis using r [OF that] by (simp add: beta_dist_pdf_def)
  qed
  have x0: "xs ! 0 = 0" using x [OF n(1)] by simp
  have x1: "xs ! (?n - 1) = 1" using x [OF last] n(2) d by simp
  have s: "xs ! Suc i - xs ! i = 1 / ?d" if "Suc i < ?n" for i
  proof -
    have "i < ?n" using that by simp
    from x [OF that] x [OF this] show ?thesis by (simp add: add_divide_distrib)
  qed
  have y0: "ys ! 0 = (if a = 1 then 1 else 0) / B a b"
    using y [OF n(1)] by (simp add: x0 beta_power_def)
  have y1: "ys ! (?n - 1) = (if b = 1 then 1 else 0) / B a b"
  proof -
    have "ys ! (?n - 1) = beta_power 1 (a - 1) * beta_power (1 - 1) (b - 1) / B a b"
      using y [OF last] unfolding x1 .
    then show ?thesis by (simp add: beta_power_def)
  qed
  have "pdf B self points = Inr (xs, ys)
      \<and> length xs = nat points \<and> length ys = nat points
      \<and> xs ! 0 = 0 \<and> xs ! (nat points - 1) = 1
      \<and> (\<forall>i<nat points. xs ! i = real i / real_of_int (points - 1))
      \<and> (\<forall>i. Suc i < nat points \<longrightarrow> xs ! Suc i - xs ! i = 1 / real_of_int (points - 1))
      \<and> (\<forall>i<nat points. 0 \<le> xs ! i \<and> xs ! i \<le> 1
            \<and> ys ! i = beta_power (xs ! i) (a - 1) * beta_power (1 - xs ! i) (b - 1) / B a b)
      \<and> ys ! 0 = (if a = 1 then 1 else 0) / B a b
      \<and> ys ! (nat points - 1) = (if b = 1 then 1 else 0) / B a b"
    using p lx ly x0 x1 x s r y y0 y1 by blast
  then show ?thesis unfolding ab fst_conv snd_conv by blast
qed

theorem pdf_evenly_spaced_density_witness:
  "(2::int) \<le> 3
   \<and> pdf (\<lambda>a b. 1) \<lparr>belief_probability = 0, confidence_strength = 1\<rparr> 3
       = Inr ([0, 1 / 2, 1], [1, 1 / 2, 0])"
proof -
  have h: "(2::int) \<le> 3" by simp
  have "[0..<nat 3] = [0, 1, 2]" by (simp add: upt_rec)
  then have "pdf (\<lambda>a b. 1) \<lparr>belief_probability = 0, confidence_strength = 1\<rparr> 3
       = Inr ([0, 1 / 2, 1], [1, 1 / 2, 0])"
    by (simp add: pdf_def parameters_def np_clip_def np_linspace_def beta_dist_pdf_def
        beta_power_def)
  then show ?thesis using pdf_evenly_spaced_density [OF h, of "\<lambda>a b. 1"
      "\<lparr>belief_probability = 0, confidence_strength = 1\<rparr>"] by simp
qed

end
